theory Spec2Isabelle
  imports Main
begin

section \<open>Memory model\<close>

text \<open>
  The list library works on heap objects through raw pointers. A pointer is an address;
  address 0 is the null pointer. The heap holds two kinds of objects, list nodes and list
  headers, each behind its own partial map from addresses. Dereferencing the null pointer
  or the address of an object that is not (or no longer) allocated is a fault of the
  program, returned as the left summand of a result.

  Element values are opaque pointers of the caller (\<open>void*\<close>): the library stores and
  compares them and never looks behind them, so the memory they point to is not part of
  the model. Integers of C type \<open>int\<close> are modelled by \<open>int\<close>: every arithmetic step of the
  library is an increment or decrement of a size or an index by one.
\<close>

type_synonym ptr = nat

abbreviation NULL :: ptr where
  "NULL \<equiv> 0"

datatype fault = NullDereference | DanglingPointer | DoubleFree | OutOfBounds | UninitialisedRead

text \<open>
  The contents of a \<open>void*\<close> object: C leaves a local variable or a freshly allocated array
  slot without a value until its first assignment.
\<close>

datatype cvalue = uninitialised | pointer ptr

text \<open>\<open>struct ListNode\<close>, \<open>struct LinkedList\<close> and \<open>struct Iterator\<close> of linkedlist.h.\<close>

record ListNode =
  node_value :: ptr
  node_next :: ptr

text \<open>
  A destructor is a function pointer: either the library's own static function
  \<open>destructor\<close>, or a function of the caller, known to the model by a number only.
\<close>

datatype destructor_ptr = default_destructor | caller_destructor nat

record LinkedList =
  list_head :: ptr
  list_tail :: ptr
  list_destructor :: destructor_ptr
  list_size :: int

record Iterator =
  itr_previous :: ptr
  itr_current :: ptr
  itr_next :: ptr
  itr_list :: ptr
  itr_index :: int

text \<open>\<open>struct Predicate\<close>: a function pointer and the context passed as its second argument.\<close>

record Predicate =
  func :: "ptr \<Rightarrow> ptr \<Rightarrow> bool"
  params :: ptr

text \<open>
  What the library does to the caller's values is recorded as a sequence of events:
  \<open>free(value)\<close> by the default destructor, and a call of a caller's destructor with
  its argument.
\<close>

datatype event = free_value ptr | destructor_call nat ptr

text \<open>
  The memory. \<open>malloc\<close> hands out the address after the highest one handed out so far, so
  it never returns the null pointer or the address of a live or freed object.
  Allocation failure is not modelled (the library does not check for it either).
  An \<open>Iterator\<close> and a \<open>Predicate\<close> are allocated, used and freed by one function and
  never shared, so the model passes them by value.
\<close>

record memory =
  nodes :: "ptr \<Rightarrow> ListNode option"
  lists :: "ptr \<Rightarrow> LinkedList option"
  last_alloc :: ptr
  events :: "event list"

definition empty_memory :: memory where
  "empty_memory = \<lparr>nodes = (\<lambda>p. None), lists = (\<lambda>p. None), last_alloc = 0, events = []\<rparr>"

text \<open>Sequencing of steps that can fault.\<close>

fun and_then :: "fault + 'a \<Rightarrow> ('a \<Rightarrow> fault + 'b) \<Rightarrow> fault + 'b" where
  "and_then (Inl e) f = Inl e"
| "and_then (Inr x) f = f x"

text \<open>Reading \<open>*p\<close> for a node or list pointer \<open>p\<close>.\<close>

definition read_node :: "memory \<Rightarrow> ptr \<Rightarrow> fault + ListNode" where
  "read_node m p =
     (if p = NULL then Inl NullDereference
      else case nodes m p of None \<Rightarrow> Inl DanglingPointer | Some n \<Rightarrow> Inr n)"

definition read_list :: "memory \<Rightarrow> ptr \<Rightarrow> fault + LinkedList" where
  "read_list m p =
     (if p = NULL then Inl NullDereference
      else case lists m p of None \<Rightarrow> Inl DanglingPointer | Some l \<Rightarrow> Inr l)"

text \<open>
  Storing into an object whose pointer the same function has already read through
  (so that it is known to be live).
\<close>

definition store_node :: "memory \<Rightarrow> ptr \<Rightarrow> ListNode \<Rightarrow> memory" where
  "store_node m p n = m\<lparr>nodes := (nodes m)(p \<mapsto> n)\<rparr>"

definition store_list :: "memory \<Rightarrow> ptr \<Rightarrow> LinkedList \<Rightarrow> memory" where
  "store_list m p l = m\<lparr>lists := (lists m)(p \<mapsto> l)\<rparr>"

text \<open>The assignment \<open>p->next = q\<close>.\<close>

definition set_next :: "memory \<Rightarrow> ptr \<Rightarrow> ptr \<Rightarrow> fault + memory" where
  "set_next m p q = and_then (read_node m p) (\<lambda>n. Inr (store_node m p (n\<lparr>node_next := q\<rparr>)))"

text \<open>\<open>malloc(sizeof(ListNode))\<close> followed by the assignments to both fields of the node.\<close>

definition malloc_node :: "memory \<Rightarrow> ListNode \<Rightarrow> ptr \<times> memory" where
  "malloc_node m n =
     (let p = last_alloc m + 1 in (p, m\<lparr>nodes := (nodes m)(p \<mapsto> n), last_alloc := p\<rparr>))"

text \<open>\<open>free(p)\<close> for a node pointer; \<open>free(NULL)\<close> does nothing.\<close>

definition free_node :: "memory \<Rightarrow> ptr \<Rightarrow> fault + memory" where
  "free_node m p =
     (if p = NULL then Inr m
      else case nodes m p of
        None \<Rightarrow> Inl DoubleFree
      | Some n \<Rightarrow> Inr (m\<lparr>nodes := (nodes m)(p := None)\<rparr>))"

section \<open>Destructors and closures\<close>

text \<open>The static function \<open>destructor\<close>: frees a value that is not null.\<close>

definition destructor :: "ptr \<Rightarrow> memory \<Rightarrow> memory" where
  "destructor val m = (if val \<noteq> NULL then m\<lparr>events := events m @ [free_value val]\<rparr> else m)"

text \<open>The call \<open>(*d)(val)\<close> through a destructor pointer \<open>d\<close>.\<close>

fun call_destructor :: "destructor_ptr \<Rightarrow> ptr \<Rightarrow> memory \<Rightarrow> memory" where
  "call_destructor default_destructor val m = destructor val m"
| "call_destructor (caller_destructor k) val m = m\<lparr>events := events m @ [destructor_call k val]\<rparr>"

text \<open>The static function \<open>equality\<close>: pointer comparison of its two arguments.\<close>

definition equality :: "ptr \<Rightarrow> ptr \<Rightarrow> bool" where
  "equality element reference = (element = reference)"

definition c_predicate :: "(ptr \<Rightarrow> ptr \<Rightarrow> bool) \<Rightarrow> ptr \<Rightarrow> Predicate" where
  "c_predicate f p = \<lparr>func = f, params = p\<rparr>"

section \<open>List operations\<close>

definition l_create :: "memory \<Rightarrow> ptr \<times> memory" where
  "l_create m =
     (let list = last_alloc m + 1
      in (list, m\<lparr>lists := (lists m)(list \<mapsto>
            \<lparr>list_head = NULL, list_tail = NULL,
             list_destructor = default_destructor, list_size = 0\<rparr>),
          last_alloc := list\<rparr>))"

definition l_addFirst :: "memory \<Rightarrow> ptr \<Rightarrow> ptr \<Rightarrow> fault + memory" where
  "l_addFirst m list val =
     and_then (read_list m list) (\<lambda>l.
       let (node, m1) = malloc_node m \<lparr>node_value = val, node_next = list_head l\<rparr>;
           l1 = (if list_size l = 0 then l\<lparr>list_tail := node\<rparr> else l)
       in Inr (store_list m1 list (l1\<lparr>list_head := node, list_size := list_size l + 1\<rparr>)))"

definition l_addLast :: "memory \<Rightarrow> ptr \<Rightarrow> ptr \<Rightarrow> fault + memory" where
  "l_addLast m list val =
     and_then (read_list m list) (\<lambda>l.
       let (node, m1) = malloc_node m \<lparr>node_value = val, node_next = NULL\<rparr>
       in if list_size l \<noteq> 0
          then and_then (set_next m1 (list_tail l) node) (\<lambda>m2.
                 Inr (store_list m2 list (l\<lparr>list_tail := node, list_size := list_size l + 1\<rparr>)))
          else Inr (store_list m1 list
                 (l\<lparr>list_head := node, list_tail := node, list_size := list_size l + 1\<rparr>)))"

text \<open>The loop \<open>for(i = 0; i < n; i++) tracker = tracker->next;\<close>.\<close>

fun advance :: "memory \<Rightarrow> nat \<Rightarrow> ptr \<Rightarrow> fault + ptr" where
  "advance m 0 tracker = Inr tracker"
| "advance m (Suc n) tracker =
     and_then (read_node m tracker) (\<lambda>t. advance m n (node_next t))"

definition l_add :: "memory \<Rightarrow> ptr \<Rightarrow> ptr \<Rightarrow> int \<Rightarrow> fault + memory" where
  "l_add m list val index =
     (if index = 0 then l_addFirst m list val
      else and_then (read_list m list) (\<lambda>l.
        if index = list_size l then l_addLast m list val
        else if index > 0 \<and> index < list_size l then
          and_then (advance m (nat (index - 1)) (list_head l)) (\<lambda>tracker.
          and_then (read_node m tracker) (\<lambda>t.
            let (new, m1) = malloc_node m \<lparr>node_value = val, node_next = node_next t\<rparr>
            in Inr (store_list (store_node m1 tracker (t\<lparr>node_next := new\<rparr>)) list
                     (l\<lparr>list_size := list_size l + 1\<rparr>))))
        else Inr m))"

text \<open>
  The three positional removals declare \<open>void* value;\<close> without an initialiser and return
  it: on the paths that assign nothing, the returned object is still uninitialised.
\<close>

definition l_removeFirst :: "memory \<Rightarrow> ptr \<Rightarrow> fault + cvalue \<times> memory" where
  "l_removeFirst m list =
     and_then (read_list m list) (\<lambda>l.
       if list_size l \<noteq> 0 then
         and_then (read_node m (list_head l)) (\<lambda>old.
         and_then (free_node m (list_head l)) (\<lambda>m1.
           let l1 = l\<lparr>list_head := node_next old\<rparr>;
               l2 = (if list_size l = 1 then l1\<lparr>list_tail := NULL\<rparr> else l1)
           in Inr (pointer (node_value old),
                   store_list m1 list (l2\<lparr>list_size := list_size l - 1\<rparr>))))
       else Inr (uninitialised, m))"

definition l_removeLast :: "memory \<Rightarrow> ptr \<Rightarrow> fault + cvalue \<times> memory" where
  "l_removeLast m list =
     and_then (read_list m list) (\<lambda>l.
       if list_size l \<noteq> 0 then
         and_then (read_node m (list_tail l)) (\<lambda>last_node.
         and_then (free_node m (list_tail l)) (\<lambda>m1.
           if list_size l = 1 then
             Inr (pointer (node_value last_node),
                  store_list m1 list
                    (l\<lparr>list_head := NULL, list_tail := NULL, list_size := list_size l - 1\<rparr>))
           else
             and_then (advance m1 (nat (list_size l - 2)) (list_head l)) (\<lambda>tracker.
             and_then (set_next m1 tracker NULL) (\<lambda>m2.
               Inr (pointer (node_value last_node),
                    store_list m2 list
                      (l\<lparr>list_tail := tracker, list_size := list_size l - 1\<rparr>))))))
       else Inr (uninitialised, m))"

definition l_remove :: "memory \<Rightarrow> ptr \<Rightarrow> int \<Rightarrow> fault + cvalue \<times> memory" where
  "l_remove m list index =
     (if index = 0 then l_removeFirst m list
      else and_then (read_list m list) (\<lambda>l.
        if index = list_size l - 1 then l_removeLast m list
        else if index > 0 \<and> index < list_size l - 1 then
          and_then (advance m (nat (index - 1)) (list_head l)) (\<lambda>tracker.
          and_then (read_node m tracker) (\<lambda>t.
          and_then (read_node m (node_next t)) (\<lambda>old.
          and_then (free_node (store_node m tracker (t\<lparr>node_next := node_next old\<rparr>))
                      (node_next t)) (\<lambda>m1.
            Inr (pointer (node_value old),
                 store_list m1 list (l\<lparr>list_size := list_size l - 1\<rparr>))))))
        else Inr (uninitialised, m)))"

section \<open>Iterators\<close>

definition l_iterator :: "memory \<Rightarrow> ptr \<Rightarrow> fault + Iterator" where
  "l_iterator m list =
     and_then (read_list m list) (\<lambda>l.
       Inr \<lparr>itr_previous = NULL, itr_current = NULL, itr_next = list_head l,
            itr_list = list, itr_index = - 1\<rparr>)"

definition i_hasNext :: "Iterator \<Rightarrow> bool" where
  "i_hasNext itr = (itr_next itr \<noteq> NULL)"

definition i_next :: "memory \<Rightarrow> Iterator \<Rightarrow> fault + ptr \<times> Iterator" where
  "i_next m itr =
     (if itr_next itr \<noteq> NULL then
        and_then (read_node m (itr_next itr)) (\<lambda>n.
          Inr (node_value n,
               itr\<lparr>itr_previous :=
                      (if itr_current itr \<noteq> NULL then itr_current itr else itr_previous itr),
                    itr_current := itr_next itr,
                    itr_next := node_next n,
                    itr_index := itr_index itr + 1\<rparr>))
      else Inr (NULL, itr))"

definition i_remove :: "memory \<Rightarrow> Iterator \<Rightarrow> fault + ptr \<times> memory \<times> Iterator" where
  "i_remove m itr =
     (if itr_current itr \<noteq> NULL then
        and_then (read_node m (itr_current itr)) (\<lambda>c.
        and_then (set_next m (itr_previous itr) (itr_next itr)) (\<lambda>m1.
        and_then (free_node m1 (itr_current itr)) (\<lambda>m2.
        and_then (read_list m2 (itr_list itr)) (\<lambda>l.
          Inr (node_value c,
               store_list m2 (itr_list itr) (l\<lparr>list_size := list_size l - 1\<rparr>),
               itr\<lparr>itr_current := NULL\<rparr>)))))
      else Inr (NULL, m, itr))"

definition i_delete :: "memory \<Rightarrow> Iterator \<Rightarrow> fault + memory \<times> Iterator" where
  "i_delete m itr =
     and_then (i_remove m itr) (\<lambda>(val, m1, itr1).
     and_then (read_list m1 (itr_list itr1)) (\<lambda>l.
       Inr (call_destructor (list_destructor l) val m1, itr1)))"

section \<open>Operations that drive an iterator to the end\<close>

text \<open>
  Each of these functions of the library is a \<open>while(i_hasNext(itr))\<close> loop. Such a loop
  need not end on an arbitrary heap (the nodes could form a cycle), so a loop is a
  partial function: \<open>None\<close> stands for a loop that does not return, \<open>Some (Inl e)\<close> for a
  fault and \<open>Some (Inr r)\<close> for the result.
\<close>

partial_function (option) removeIf_loop ::
  "memory \<Rightarrow> Predicate \<Rightarrow> Iterator \<Rightarrow> (fault + memory \<times> Iterator) option" where
  "removeIf_loop m selector itr =
     (if i_hasNext itr then
        (case i_next m itr of
           Inl e \<Rightarrow> Some (Inl e)
         | Inr (val, itr1) \<Rightarrow>
             if func selector val (params selector) then
               (case i_remove m itr1 of
                  Inl e \<Rightarrow> Some (Inl e)
                | Inr (removed, m1, itr2) \<Rightarrow> removeIf_loop m1 selector itr2)
             else removeIf_loop m selector itr1)
      else Some (Inr (m, itr)))"

definition l_removeIf :: "memory \<Rightarrow> ptr \<Rightarrow> Predicate \<Rightarrow> (fault + memory) option" where
  "l_removeIf m list selector =
     (case l_iterator m list of
        Inl e \<Rightarrow> Some (Inl e)
      | Inr itr \<Rightarrow> map_option (map_sum id fst) (removeIf_loop m selector itr))"

text \<open>
  The value forms build their predicate as \<open>c_predicate(&equality, &value)\<close>: the context
  handed to \<open>equality\<close> is the address of the function's own parameter \<open>value\<close>, not the
  pointer stored in it. That address belongs to the activation record of the call, which
  the memory above does not hold, so the model takes it as the argument \<open>addr_of_value\<close>.
\<close>

definition l_removeValue :: "ptr \<Rightarrow> memory \<Rightarrow> ptr \<Rightarrow> ptr \<Rightarrow> (fault + memory) option" where
  "l_removeValue addr_of_value m list val =
     l_removeIf m list (c_predicate equality addr_of_value)"

partial_function (option) findFirst_loop ::
  "memory \<Rightarrow> Predicate \<Rightarrow> Iterator \<Rightarrow> int \<Rightarrow> (fault + int \<times> Iterator) option" where
  "findFirst_loop m selector itr index =
     (if i_hasNext itr \<and> index = - 1 then
        (case i_next m itr of
           Inl e \<Rightarrow> Some (Inl e)
         | Inr (val, itr1) \<Rightarrow>
             findFirst_loop m selector itr1
               (if func selector val (params selector) then itr_index itr1 else index))
      else Some (Inr (index, itr)))"

definition l_findFirst :: "memory \<Rightarrow> ptr \<Rightarrow> Predicate \<Rightarrow> (fault + int) option" where
  "l_findFirst m list selector =
     (case l_iterator m list of
        Inl e \<Rightarrow> Some (Inl e)
      | Inr itr \<Rightarrow> map_option (map_sum id fst) (findFirst_loop m selector itr (- 1)))"

definition l_firstIndexOf :: "ptr \<Rightarrow> memory \<Rightarrow> ptr \<Rightarrow> ptr \<Rightarrow> (fault + int) option" where
  "l_firstIndexOf addr_of_value m list val =
     l_findFirst m list (c_predicate equality addr_of_value)"

partial_function (option) findLast_loop ::
  "memory \<Rightarrow> Predicate \<Rightarrow> Iterator \<Rightarrow> int \<Rightarrow> (fault + int \<times> Iterator) option" where
  "findLast_loop m selector itr index =
     (if i_hasNext itr then
        (case i_next m itr of
           Inl e \<Rightarrow> Some (Inl e)
         | Inr (val, itr1) \<Rightarrow>
             findLast_loop m selector itr1
               (if func selector val (params selector) then itr_index itr1 else index))
      else Some (Inr (index, itr)))"

definition l_findLast :: "memory \<Rightarrow> ptr \<Rightarrow> Predicate \<Rightarrow> (fault + int) option" where
  "l_findLast m list selector =
     (case l_iterator m list of
        Inl e \<Rightarrow> Some (Inl e)
      | Inr itr \<Rightarrow> map_option (map_sum id fst) (findLast_loop m selector itr (- 1)))"

partial_function (option) matches_loop ::
  "memory \<Rightarrow> Predicate \<Rightarrow> Iterator \<Rightarrow> bool \<Rightarrow> (fault + bool) option" where
  "matches_loop m selector itr contains =
     (if i_hasNext itr \<and> \<not> contains then
        (case i_next m itr of
           Inl e \<Rightarrow> Some (Inl e)
         | Inr (val, itr1) \<Rightarrow>
             matches_loop m selector itr1 (contains \<or> func selector val (params selector)))
      else Some (Inr contains))"

definition l_matches :: "memory \<Rightarrow> ptr \<Rightarrow> Predicate \<Rightarrow> (fault + bool) option" where
  "l_matches m list selector =
     (case l_iterator m list of
        Inl e \<Rightarrow> Some (Inl e)
      | Inr itr \<Rightarrow> matches_loop m selector itr False)"

definition l_contains :: "ptr \<Rightarrow> memory \<Rightarrow> ptr \<Rightarrow> ptr \<Rightarrow> (fault + bool) option" where
  "l_contains addr_of_value m list val =
     l_matches m list (c_predicate equality addr_of_value)"

section \<open>Arrays and equality\<close>

text \<open>
  An array of \<open>void*\<close> is a list of slots. \<open>l_toArray\<close> allocates \<open>list->size\<close> slots and
  stores the values at the indices 0, 1, ... (the counter \<open>i\<close> starts at 0 and only grows,
  so it is a natural number); a store or a load outside the array is a fault.
\<close>

partial_function (option) toArray_loop ::
  "memory \<Rightarrow> Iterator \<Rightarrow> cvalue list \<Rightarrow> nat \<Rightarrow> (fault + cvalue list) option" where
  "toArray_loop m itr array i =
     (if i_hasNext itr then
        (case i_next m itr of
           Inl e \<Rightarrow> Some (Inl e)
         | Inr (val, itr1) \<Rightarrow>
             if i < length array then toArray_loop m itr1 (array[i := pointer val]) (Suc i)
             else Some (Inl OutOfBounds))
      else Some (Inr array))"

definition l_toArray :: "memory \<Rightarrow> ptr \<Rightarrow> (fault + cvalue list) option" where
  "l_toArray m list =
     (case l_iterator m list of
        Inl e \<Rightarrow> Some (Inl e)
      | Inr itr \<Rightarrow>
          (case read_list m list of
             Inl e \<Rightarrow> Some (Inl e)
           | Inr l \<Rightarrow> toArray_loop m itr (replicate (nat (list_size l)) uninitialised) 0))"

text \<open>
  The loop \<open>for(i = 0; i < size; i++) l_addLast(list, array[i]);\<close>, by the number of
  iterations left and the index \<open>i\<close>.
\<close>

fun addArray_loop :: "nat \<Rightarrow> nat \<Rightarrow> memory \<Rightarrow> ptr \<Rightarrow> cvalue list \<Rightarrow> fault + memory" where
  "addArray_loop 0 i m list array = Inr m"
| "addArray_loop (Suc k) i m list array =
     (if i < length array then
        (case array ! i of
           uninitialised \<Rightarrow> Inl UninitialisedRead
         | pointer val \<Rightarrow> and_then (l_addLast m list val) (\<lambda>m1. addArray_loop k (Suc i) m1 list array))
      else Inl OutOfBounds)"

definition l_addArray :: "memory \<Rightarrow> ptr \<Rightarrow> cvalue list \<Rightarrow> int \<Rightarrow> fault + memory" where
  "l_addArray m list array n = addArray_loop (nat n) 0 m list array"

definition l_fromArray :: "memory \<Rightarrow> cvalue list \<Rightarrow> int \<Rightarrow> fault + ptr \<times> memory" where
  "l_fromArray m array n =
     (let (list, m1) = l_create m
      in and_then (l_addArray m1 list array n) (\<lambda>m2. Inr (list, m2)))"

partial_function (option) equal_loop ::
  "memory \<Rightarrow> Iterator \<Rightarrow> Iterator \<Rightarrow> bool \<Rightarrow> (fault + bool) option" where
  "equal_loop m itr1 itr2 equal =
     (if i_hasNext itr1 \<and> i_hasNext itr2 \<and> equal then
        (case i_next m itr1 of
           Inl e \<Rightarrow> Some (Inl e)
         | Inr (val1, itr1') \<Rightarrow>
             (case i_next m itr2 of
                Inl e \<Rightarrow> Some (Inl e)
              | Inr (val2, itr2') \<Rightarrow> equal_loop m itr1' itr2' (equal \<and> val1 = val2)))
      else Some (Inr equal))"

definition l_equal :: "memory \<Rightarrow> ptr \<Rightarrow> ptr \<Rightarrow> (fault + bool) option" where
  "l_equal m list1 list2 =
     (case read_list m list1 of
        Inl e \<Rightarrow> Some (Inl e)
      | Inr l1 \<Rightarrow>
          (case read_list m list2 of
             Inl e \<Rightarrow> Some (Inl e)
           | Inr l2 \<Rightarrow>
               (case l_iterator m list1 of
                  Inl e \<Rightarrow> Some (Inl e)
                | Inr itr1 \<Rightarrow>
                    (case l_iterator m list2 of
                       Inl e \<Rightarrow> Some (Inl e)
                     | Inr itr2 \<Rightarrow>
                         equal_loop m itr1 itr2 (list_size l1 = list_size l2)))))"

section \<open>Well-formed lists\<close>

text \<open>
  \<open>chain m p cells\<close>: starting at \<open>p\<close> and following \<open>next\<close>, the heap holds exactly the
  nodes \<open>cells\<close> (address and value of each, in order) and then the null pointer.
\<close>

fun chain :: "memory \<Rightarrow> ptr \<Rightarrow> (ptr \<times> ptr) list \<Rightarrow> bool" where
  "chain m p [] = (p = NULL)"
| "chain m p (c # cells) =
     (p = fst c \<and> p \<noteq> NULL \<and>
      (case nodes m p of
         None \<Rightarrow> False
       | Some n \<Rightarrow> node_value n = snd c \<and> chain m (node_next n) cells))"

text \<open>
  \<open>valid_list m list cells\<close>: the header at \<open>list\<close> is live, its head starts the chain of
  \<open>cells\<close>, its size is their number and its tail is the last of them (null when there is
  none). \<open>allocated m list cells\<close>: the header and the nodes have addresses that \<open>malloc\<close>
  handed out.
\<close>

definition valid_list :: "memory \<Rightarrow> ptr \<Rightarrow> (ptr \<times> ptr) list \<Rightarrow> bool" where
  "valid_list m list cells =
     (list \<noteq> NULL \<and>
      (case lists m list of
         None \<Rightarrow> False
       | Some l \<Rightarrow>
           chain m (list_head l) cells \<and>
           list_size l = int (length cells) \<and>
           list_tail l = (if cells = [] then NULL else fst (last cells))))"

definition allocated :: "memory \<Rightarrow> ptr \<Rightarrow> (ptr \<times> ptr) list \<Rightarrow> bool" where
  "allocated m list cells =
     (list \<le> last_alloc m \<and> list_all (\<lambda>c. fst c \<le> last_alloc m) cells)"

text \<open>
  The structural invariant of the specification, as a check on the heap: head is null iff
  tail is null iff size is 0, and following \<open>next\<close> from head reaches tail after
  \<open>size - 1\<close> steps and the null pointer after \<open>size\<close> steps.
\<close>

definition invariant :: "memory \<Rightarrow> ptr \<Rightarrow> bool" where
  "invariant m list =
     (case read_list m list of
        Inl e \<Rightarrow> False
      | Inr l \<Rightarrow>
          (list_head l = NULL) = (list_tail l = NULL) \<and>
          (list_tail l = NULL) = (list_size l = 0) \<and>
          0 \<le> list_size l \<and>
          (if list_size l = 0 then True
           else advance m (nat (list_size l - 1)) (list_head l) = Inr (list_tail l)) \<and>
          advance m (nat (list_size l)) (list_head l) = Inr NULL)"

section \<open>Basic facts\<close>

lemma and_then_Inr_iff:
  "and_then r f = Inr y \<longleftrightarrow> (\<exists>x. r = Inr x \<and> f x = Inr y)"
  by (cases r) auto

text \<open>Unfolding of the counted loops, for running the model on concrete inputs.\<close>

lemma addArray_loop_unfold:
  "addArray_loop k i m list array =
     (if k = 0 then Inr m
      else if i < length array then
        (case array ! i of
           uninitialised \<Rightarrow> Inl UninitialisedRead
         | pointer val \<Rightarrow>
             and_then (l_addLast m list val) (\<lambda>m1. addArray_loop (k - 1) (Suc i) m1 list array))
      else Inl OutOfBounds)"
  by (cases k) (simp_all split: cvalue.splits)

lemma advance_unfold:
  "advance m n tracker =
     (if n = 0 then Inr tracker
      else and_then (read_node m tracker) (\<lambda>t. advance m (n - 1) (node_next t)))"
  by (cases n) simp_all

lemma replicate_unfold:
  "replicate n x = (if n = 0 then [] else x # replicate (n - 1) x)"
  by (cases n) simp_all

lemmas run_defs = addArray_loop_unfold advance_unfold l_fromArray_def l_addArray_def
  l_create_def empty_memory_def l_addLast_def read_list_def read_node_def malloc_node_def
  store_list_def store_node_def set_next_def free_node_def l_iterator_def i_hasNext_def
  i_next_def i_remove_def c_predicate_def equality_def Let_def

section \<open>Removal through an iterator\<close>

text \<open>
  Claim C1 says that \<open>i_remove\<close> unlinks the current node through \<open>previous.next\<close> or,
  when the current node is the head, through the list's head reference, and that it moves
  the list's tail reference to \<open>previous\<close> when the current node is the tail. The function
  has neither case: it assigns \<open>itr->previous->next\<close> whatever \<open>previous\<close> is and never
  touches \<open>head\<close> or \<open>tail\<close>. On the one-element list [11], \<open>next()\<close> then \<open>remove()\<close>
  dereferences the null \<open>previous\<close>. On [11, 12], removing 12 returns 12 and leaves the
  list's tail pointing at the node that was just freed.
\<close>

theorem i_remove_head_and_tail:
  "(\<exists>list m itr val itr1.
      l_fromArray empty_memory [pointer 11] 1 = Inr (list, m) \<and>
      l_iterator m list = Inr itr \<and>
      i_next m itr = Inr (val, itr1) \<and>
      i_remove m itr1 = Inl NullDereference) \<and>
   (\<exists>list m itr val1 itr1 val2 itr2 m1 itr3 l1.
      l_fromArray empty_memory [pointer 11, pointer 12] 2 = Inr (list, m) \<and>
      l_iterator m list = Inr itr \<and>
      i_next m itr = Inr (val1, itr1) \<and>
      i_next m itr1 = Inr (val2, itr2) \<and>
      i_remove m itr2 = Inr (12, m1, itr3) \<and>
      read_list m1 list = Inr l1 \<and>
      list_tail l1 = itr_current itr2 \<and>
      read_node m1 (list_tail l1) = Inl DanglingPointer)"
  by (simp add: run_defs)

text \<open>
  Claim C2 says that \<open>l_removeIf\<close> leaves the elements that do not satisfy the predicate,
  for every list and predicate. On [11, 12] with the predicate "is 11" the first element
  matches, and the call faults in \<open>i_remove\<close> on the null \<open>previous\<close>.
\<close>

theorem l_removeIf_first_matches:
  "\<exists>list m.
      l_fromArray empty_memory [pointer 11, pointer 12] 2 = Inr (list, m) \<and>
      l_removeIf m list (c_predicate (\<lambda>element context. element = 11) NULL)
        = Some (Inl NullDereference)"
  by (simp add: run_defs l_removeIf_def removeIf_loop.simps)

text \<open>
  Claim C4 says that the structural invariant holds after any sequence of operations,
  removals through an iterator included. The list [11, 12] built by \<open>l_fromArray\<close>
  satisfies the invariant; after an iterator has removed its last element the invariant
  fails (the tail is not the node reached from the head), and the next \<open>l_addLast\<close>
  writes through the dangling tail.
\<close>

theorem invariant_broken_by_i_remove:
  "\<exists>list m itr val1 itr1 val2 itr2 m1 itr3.
      l_fromArray empty_memory [pointer 11, pointer 12] 2 = Inr (list, m) \<and>
      invariant m list \<and>
      l_iterator m list = Inr itr \<and>
      i_next m itr = Inr (val1, itr1) \<and>
      i_next m itr1 = Inr (val2, itr2) \<and>
      i_remove m itr2 = Inr (12, m1, itr3) \<and>
      \<not> invariant m1 list \<and>
      l_addLast m1 list 13 = Inl DanglingPointer"
  by (simp add: run_defs invariant_def)

text \<open>
  Claim C6 says that for every iterator, after \<open>next()\<close> and \<open>remove()\<close>, a second
  \<open>remove()\<close> returns the null pointer and leaves the size as the first removal left it.
  On a fresh iterator the sequence does not get that far: after the first \<open>next()\<close> the
  current node is the head and \<open>previous\<close> is null, so the first \<open>remove()\<close>
  dereferences the null pointer (the defect of C1) and the second \<open>remove()\<close> is never
  reached. On [11, 12]:
\<close>

theorem i_remove_twice_on_first_element:
  "\<exists>list m itr itr1.
     l_fromArray empty_memory [pointer 11, pointer 12] 2 = Inr (list, m) \<and>
     l_iterator m list = Inr itr \<and>
     i_next m itr = Inr (11, itr1) \<and>
     i_remove m itr1 = Inl NullDereference \<and>
     and_then (i_remove m itr1) (\<lambda>(removed, m1, itr2). i_remove m1 itr2) =
       Inl NullDereference"
  by (simp add: run_defs)

text \<open>
  The same holds on every well-formed list that is not empty: the first \<open>remove()\<close> after
  the first \<open>next()\<close> faults.
\<close>

lemma i_remove_first_element_faults:
  assumes "valid_list m list (c # cells)"
  shows "\<exists>itr itr1. l_iterator m list = Inr itr \<and> i_next m itr = Inr (snd c, itr1) \<and>
           i_remove m itr1 = Inl NullDereference"
proof -
  obtain l n where l: "read_list m list = Inr l" "list_head l = fst c" "fst c \<noteq> NULL"
      "nodes m (fst c) = Some n" "node_value n = snd c"
    using assms by (auto simp: valid_list_def read_list_def split: option.splits)
  define itr where "itr = \<lparr>itr_previous = NULL, itr_current = NULL, itr_next = fst c,
                            itr_list = list, itr_index = - 1\<rparr>"
  define itr1 where "itr1 = \<lparr>itr_previous = NULL, itr_current = fst c,
                             itr_next = node_next n, itr_list = list, itr_index = 0\<rparr>"
  have a: "l_iterator m list = Inr itr"
    using l(1,2) by (simp add: l_iterator_def itr_def)
  have b: "i_next m itr = Inr (snd c, itr1)"
    using l(3,4,5) by (simp add: i_next_def read_node_def itr_def itr1_def)
  have "set_next m (itr_previous itr1) (itr_next itr1) = Inl NullDereference"
    by (simp add: set_next_def read_node_def itr1_def)
  then have "i_remove m itr1 = Inl NullDereference"
    using l(3,4) by (simp add: i_remove_def read_node_def itr1_def)
  with a b show ?thesis by blast
qed

text \<open>
  Where the first \<open>remove()\<close> does return (the removed node has a predecessor), the
  single-consume mechanism works: \<open>current\<close> is null afterwards, and a second
  \<open>remove()\<close> returns the null pointer and changes neither the memory nor the iterator.
\<close>

lemma i_remove_twice:
  assumes "i_next m itr = Inr (val, itr1)"
    and "i_remove m itr1 = Inr (removed, m1, itr2)"
  shows "i_remove m1 itr2 = Inr (NULL, m1, itr2)"
proof -
  have "itr_current itr2 = NULL"
    using assms(2) by (auto simp: i_remove_def and_then_Inr_iff split: if_splits)
  then show ?thesis by (simp add: i_remove_def)
qed

lemma i_remove_twice_example:
  "\<exists>list m itr val1 itr1 val2 itr2 removed m1 itr3.
     l_fromArray empty_memory [pointer 11, pointer 12] 2 = Inr (list, m) \<and>
     l_iterator m list = Inr itr \<and>
     i_next m itr = Inr (val1, itr1) \<and>
     i_next m itr1 = Inr (val2, itr2) \<and>
     i_remove m itr2 = Inr (removed, m1, itr3) \<and>
     i_remove m1 itr3 = Inr (NULL, m1, itr3)"
proof -
  obtain list m where a: "l_fromArray empty_memory [pointer 11, pointer 12] 2 = Inr (list, m)"
    by (simp add: run_defs)
  obtain itr where b: "l_iterator m list = Inr itr"
    using a by (auto simp: run_defs)
  obtain val1 itr1 where c: "i_next m itr = Inr (val1, itr1)"
    using a b by (auto simp: run_defs)
  obtain val2 itr2 where d: "i_next m itr1 = Inr (val2, itr2)"
    using a b c by (auto simp: run_defs)
  obtain removed m1 itr3 where e: "i_remove m itr2 = Inr (removed, m1, itr3)"
    using a b c d by (auto simp: run_defs)
  from i_remove_twice[OF d e] a b c d e show ?thesis by blast
qed

text \<open>
  Claim C10: with no pending removal (\<open>current\<close> is null), \<open>i_delete\<close> still calls the
  list's destructor, with the null pointer that \<open>i_remove\<close> returned. The default
  destructor does nothing with it; a destructor of the caller is called with a null
  argument.
\<close>

theorem i_delete_no_pending:
  assumes "itr_current itr = NULL" and "read_list m (itr_list itr) = Inr l"
  shows "i_delete m itr = Inr (call_destructor (list_destructor l) NULL m, itr) \<and>
         call_destructor default_destructor NULL m = m \<and>
         call_destructor (caller_destructor k) NULL m =
           m\<lparr>events := events m @ [destructor_call k NULL]\<rparr>"
  using assms by (simp add: i_delete_def i_remove_def destructor_def)

theorem i_delete_no_pending_witness:
  "\<exists>list m0 l m itr.
     l_create empty_memory = (list, m0) \<and>
     read_list m0 list = Inr l \<and>
     m = store_list m0 list (l\<lparr>list_destructor := caller_destructor 7\<rparr>) \<and>
     l_iterator m list = Inr itr \<and>
     itr_current itr = NULL \<and>
     i_delete m itr = Inr (m\<lparr>events := [destructor_call 7 NULL]\<rparr>, itr)"
proof -
  obtain list m0 where a: "l_create empty_memory = (list, m0)"
    by (simp add: run_defs)
  obtain l where b: "read_list m0 list = Inr l"
    using a by (auto simp: run_defs)
  define m where "m = store_list m0 list (l\<lparr>list_destructor := caller_destructor 7\<rparr>)"
  obtain itr where c: "l_iterator m list = Inr itr" and d: "itr_current itr = NULL"
      and e: "itr_list itr = list"
    using a b by (auto simp: m_def run_defs)
  have f: "read_list m (itr_list itr) = Inr (l\<lparr>list_destructor := caller_destructor 7\<rparr>)"
    using a b e by (auto simp: m_def run_defs)
  have g: "events m = []"
    using a by (auto simp: m_def run_defs)
  from i_delete_no_pending[OF d f, of 7] a b c d g m_def show ?thesis by simp
qed

section \<open>Positional operations\<close>

text \<open>
  Claim C5 says that the positional removals return the null pointer on an empty list
  and for an index out of range. They leave the list as it is, but what they return is
  their local variable \<open>value\<close>, which those paths never assign: the result is an
  uninitialised object, not the null pointer that the comments of the three functions
  promise.
\<close>

theorem remove_returns_uninitialised:
  "(let (list, m) = l_create empty_memory
    in l_removeFirst m list = Inr (uninitialised, m) \<and>
       l_removeLast m list = Inr (uninitialised, m) \<and>
       l_remove m list 0 = Inr (uninitialised, m) \<and>
       l_remove m list (- 1) = Inr (uninitialised, m) \<and>
       l_remove m list 3 = Inr (uninitialised, m)) \<and>
   (\<exists>list m.
      l_fromArray empty_memory [pointer 11, pointer 12] 2 = Inr (list, m) \<and>
      l_remove m list 2 = Inr (uninitialised, m) \<and>
      l_remove m list (- 1) = Inr (uninitialised, m))"
  by (simp add: run_defs l_removeFirst_def l_removeLast_def l_remove_def)

text \<open>
  Claim C7: on a well-formed list, \<open>l_add\<close> with an index below 0 or above the size
  returns the memory as it was; at index 0 it is \<open>l_addFirst\<close> and at index \<open>size\<close> it
  is \<open>l_addLast\<close> (on the empty list, where both indices are 0, the call of
  \<open>l_addFirst\<close> has the effect of \<open>l_addLast\<close>).
\<close>

theorem l_add_bounds:
  assumes "valid_list m list cells"
  shows "(index < 0 \<or> int (length cells) < index \<longrightarrow> l_add m list val index = Inr m) \<and>
         l_add m list val 0 = l_addFirst m list val \<and>
         l_add m list val (int (length cells)) = l_addLast m list val"
proof -
  obtain l where l: "lists m list = Some l" "list \<noteq> NULL" "chain m (list_head l) cells"
      "list_size l = int (length cells)"
    using assms by (auto simp: valid_list_def split: option.splits)
  have rl: "read_list m list = Inr l" using l by (simp add: read_list_def)
  have 1: "index < 0 \<or> int (length cells) < index \<longrightarrow> l_add m list val index = Inr m"
    using rl l(4) by (auto simp: l_add_def)
  have 2: "l_add m list val 0 = l_addFirst m list val" by (simp add: l_add_def)
  have 3: "l_add m list val (int (length cells)) = l_addLast m list val"
  proof (cases "cells = []")
    case True
    then have "list_head l = NULL" "list_size l = 0" using l by auto
    then show ?thesis using True rl
      by (cases l)
        (simp add: l_add_def l_addFirst_def l_addLast_def malloc_node_def Let_def store_list_def)
  next
    case False
    then show ?thesis using rl l(4) by (simp add: l_add_def)
  qed
  from 1 2 3 show ?thesis by blast
qed

theorem l_add_bounds_witness:
  "\<exists>list m.
     l_fromArray empty_memory [pointer 11, pointer 12] 2 = Inr (list, m) \<and>
     valid_list m list [(2, 11), (3, 12)] \<and>
     l_add m list 99 (- 1) = Inr m \<and>
     l_add m list 99 3 = Inr m \<and>
     l_add m list 99 0 = l_addFirst m list 99 \<and>
     l_add m list 99 2 = l_addLast m list 99"
proof -
  obtain list m where a: "l_fromArray empty_memory [pointer 11, pointer 12] 2 = Inr (list, m)"
    by (simp add: run_defs)
  have v: "valid_list m list [(2, 11), (3, 12)]"
    using a by (auto simp: run_defs valid_list_def)
  from l_add_bounds[OF v, of "- 1" 99] l_add_bounds[OF v, of 3 99] a v
  show ?thesis by simp
qed

section \<open>The value forms\<close>

text \<open>
  Claim C3 says that \<open>l_removeValue\<close>, \<open>l_contains\<close> and \<open>l_firstIndexOf\<close> are the
  predicate forms with identity to the given value. They compare every element with the
  address of their own parameter instead, so an element matches only if it is that
  address, whatever the value asked for:
  on [1, 2, 2, 3, 2] (the pointers 101, 102, 102, 103, 102), \<open>l_removeValue\<close> of 2 removes
  nothing, \<open>l_contains\<close> answers false and \<open>l_firstIndexOf\<close> answers -1.
\<close>

theorem l_removeValue_example:
  "\<exists>list m.
      l_fromArray empty_memory [pointer 101, pointer 102, pointer 102, pointer 103, pointer 102] 5
        = Inr (list, m) \<and>
      l_removeValue 9000 m list 102 = Some (Inr m) \<and>
      l_toArray m list =
        Some (Inr [pointer 101, pointer 102, pointer 102, pointer 103, pointer 102]) \<and>
      l_contains 9000 m list 102 = Some (Inr False) \<and>
      l_firstIndexOf 9000 m list 102 = Some (Inr (- 1))"
  by (simp add: run_defs l_removeValue_def l_removeIf_def removeIf_loop.simps
      l_contains_def l_matches_def matches_loop.simps l_firstIndexOf_def l_findFirst_def
      findFirst_loop.simps l_toArray_def toArray_loop.simps replicate_unfold)

section \<open>Traversal of a well-formed list\<close>

lemma chain_Nil_hasNext: "chain m (itr_next itr) [] \<Longrightarrow> \<not> i_hasNext itr"
  by (simp add: i_hasNext_def)

lemma chain_Cons_hasNext: "chain m (itr_next itr) (c # cells) \<Longrightarrow> i_hasNext itr"
  by (simp add: i_hasNext_def)

lemma chain_Cons_next:
  assumes "chain m (itr_next itr) (c # cells)"
  shows "\<exists>itr1. i_next m itr = Inr (snd c, itr1) \<and> chain m (itr_next itr1) cells \<and>
           itr_index itr1 = itr_index itr + 1 \<and> itr_current itr1 = fst c \<and>
           itr_list itr1 = itr_list itr \<and>
           itr_previous itr1 =
             (if itr_current itr \<noteq> NULL then itr_current itr else itr_previous itr)"
  using assms by (auto simp: i_next_def read_node_def split: option.splits)

lemma findFirst_loop_found:
  "index \<noteq> - 1 \<Longrightarrow> findFirst_loop m selector itr index = Some (Inr (index, itr))"
  by (subst findFirst_loop.simps) simp

lemma findFirst_loop_end:
  "\<not> i_hasNext itr \<Longrightarrow> findFirst_loop m selector itr index = Some (Inr (index, itr))"
  by (subst findFirst_loop.simps) simp

lemma findFirst_loop_step:
  "i_hasNext itr \<Longrightarrow> i_next m itr = Inr (val, itr1) \<Longrightarrow>
   findFirst_loop m selector itr (- 1) =
   findFirst_loop m selector itr1
     (if func selector val (params selector) then itr_index itr1 else - 1)"
  by (subst findFirst_loop.simps) simp

lemma findFirst_loop_none:
  assumes "chain m (itr_next itr) cells"
    and "\<forall>c \<in> set cells. \<not> func selector (snd c) (params selector)"
  shows "\<exists>itr'. findFirst_loop m selector itr (- 1) = Some (Inr (- 1, itr')) \<and>
           itr_index itr' = itr_index itr + int (length cells)"
  using assms
proof (induction cells arbitrary: itr)
  case Nil
  then show ?case by (simp add: findFirst_loop_end chain_Nil_hasNext)
next
  case (Cons c cells)
  obtain itr1 where n: "i_next m itr = Inr (snd c, itr1)" "chain m (itr_next itr1) cells"
      "itr_index itr1 = itr_index itr + 1"
    using chain_Cons_next[OF Cons.prems(1)] by blast
  have h: "i_hasNext itr" using Cons.prems(1) by (rule chain_Cons_hasNext)
  have "\<not> func selector (snd c) (params selector)" using Cons.prems(2) by simp
  then have eq: "findFirst_loop m selector itr (- 1) = findFirst_loop m selector itr1 (- 1)"
    using findFirst_loop_step[OF h n(1), of selector] by simp
  have "\<forall>c \<in> set cells. \<not> func selector (snd c) (params selector)"
    using Cons.prems(2) by simp
  from Cons.IH[OF n(2) this] obtain itr' where
    "findFirst_loop m selector itr1 (- 1) = Some (Inr (- 1, itr'))"
    "itr_index itr' = itr_index itr1 + int (length cells)" by blast
  then show ?case using eq n(3) by simp
qed

lemma findFirst_loop_first:
  assumes "chain m (itr_next itr) (pre @ c # post)"
    and "\<forall>c \<in> set pre. \<not> func selector (snd c) (params selector)"
    and "func selector (snd c) (params selector)"
    and "- 1 \<le> itr_index itr"
  shows "\<exists>itr'. findFirst_loop m selector itr (- 1) =
             Some (Inr (itr_index itr + 1 + int (length pre), itr')) \<and>
           itr_index itr' = itr_index itr + 1 + int (length pre)"
  using assms
proof (induction pre arbitrary: itr)
  case Nil
  obtain itr1 where n: "i_next m itr = Inr (snd c, itr1)" "itr_index itr1 = itr_index itr + 1"
    using chain_Cons_next[of m itr c post] Nil.prems(1) by auto
  have h: "i_hasNext itr" using Nil.prems(1) by (simp add: i_hasNext_def)
  have "itr_index itr1 \<noteq> - 1" using n(2) Nil.prems(4) by simp
  then have "findFirst_loop m selector itr (- 1) = Some (Inr (itr_index itr1, itr1))"
    using findFirst_loop_step[OF h n(1), of selector] Nil.prems(3)
    by (simp add: findFirst_loop_found)
  then show ?case using n(2) by simp
next
  case (Cons p pre)
  obtain itr1 where n: "i_next m itr = Inr (snd p, itr1)"
      "chain m (itr_next itr1) (pre @ c # post)" "itr_index itr1 = itr_index itr + 1"
    using chain_Cons_next[of m itr p "pre @ c # post"] Cons.prems(1) by auto
  have h: "i_hasNext itr" using Cons.prems(1) by (simp add: i_hasNext_def)
  have "\<not> func selector (snd p) (params selector)" using Cons.prems(2) by simp
  then have eq: "findFirst_loop m selector itr (- 1) = findFirst_loop m selector itr1 (- 1)"
    using findFirst_loop_step[OF h n(1), of selector] by simp
  have "\<forall>c \<in> set pre. \<not> func selector (snd c) (params selector)"
    using Cons.prems(2) by simp
  moreover have "- 1 \<le> itr_index itr1" using n(3) Cons.prems(4) by simp
  ultimately obtain itr' where
    "findFirst_loop m selector itr1 (- 1) =
       Some (Inr (itr_index itr1 + 1 + int (length pre), itr'))"
    "itr_index itr' = itr_index itr1 + 1 + int (length pre)"
    using Cons.IH[OF n(2) _ Cons.prems(3)] by blast
  then show ?case using eq n(3) by simp
qed

lemma findLast_loop_end:
  "\<not> i_hasNext itr \<Longrightarrow> findLast_loop m selector itr index = Some (Inr (index, itr))"
  by (subst findLast_loop.simps) simp

lemma findLast_loop_step:
  "i_hasNext itr \<Longrightarrow> i_next m itr = Inr (val, itr1) \<Longrightarrow>
   findLast_loop m selector itr index =
   findLast_loop m selector itr1
     (if func selector val (params selector) then itr_index itr1 else index)"
  by (subst findLast_loop.simps) simp

lemma findLast_loop_none:
  assumes "chain m (itr_next itr) cells"
    and "\<forall>c \<in> set cells. \<not> func selector (snd c) (params selector)"
  shows "\<exists>itr'. findLast_loop m selector itr index = Some (Inr (index, itr')) \<and>
           itr_index itr' = itr_index itr + int (length cells)"
  using assms
proof (induction cells arbitrary: itr)
  case Nil
  then show ?case by (simp add: findLast_loop_end chain_Nil_hasNext)
next
  case (Cons c cells)
  obtain itr1 where n: "i_next m itr = Inr (snd c, itr1)" "chain m (itr_next itr1) cells"
      "itr_index itr1 = itr_index itr + 1"
    using chain_Cons_next[OF Cons.prems(1)] by blast
  have h: "i_hasNext itr" using Cons.prems(1) by (rule chain_Cons_hasNext)
  have "\<not> func selector (snd c) (params selector)" using Cons.prems(2) by simp
  then have eq: "findLast_loop m selector itr index = findLast_loop m selector itr1 index"
    using findLast_loop_step[OF h n(1), of selector index] by simp
  have "\<forall>c \<in> set cells. \<not> func selector (snd c) (params selector)"
    using Cons.prems(2) by simp
  from Cons.IH[OF n(2) this] obtain itr' where
    "findLast_loop m selector itr1 index = Some (Inr (index, itr'))"
    "itr_index itr' = itr_index itr1 + int (length cells)" by blast
  then show ?case using eq n(3) by simp
qed

lemma findLast_loop_last:
  assumes "chain m (itr_next itr) (pre @ c # post)"
    and "func selector (snd c) (params selector)"
    and "\<forall>c \<in> set post. \<not> func selector (snd c) (params selector)"
  shows "\<exists>itr'. findLast_loop m selector itr index =
             Some (Inr (itr_index itr + 1 + int (length pre), itr')) \<and>
           itr_index itr' = itr_index itr + int (length (pre @ c # post))"
  using assms(1)
proof (induction pre arbitrary: itr index)
  case Nil
  obtain itr1 where n: "i_next m itr = Inr (snd c, itr1)" "chain m (itr_next itr1) post"
      "itr_index itr1 = itr_index itr + 1"
    using chain_Cons_next[of m itr c post] Nil.prems(1) by auto
  have h: "i_hasNext itr" using Nil.prems(1) by (simp add: i_hasNext_def)
  have eq: "findLast_loop m selector itr index = findLast_loop m selector itr1 (itr_index itr1)"
    using findLast_loop_step[OF h n(1), of selector index] assms(2) by simp
  obtain itr' where
    "findLast_loop m selector itr1 (itr_index itr1) = Some (Inr (itr_index itr1, itr'))"
    "itr_index itr' = itr_index itr1 + int (length post)"
    using findLast_loop_none[OF n(2) assms(3), of "itr_index itr1"] by blast
  then show ?case using eq n(3) by simp
next
  case (Cons p pre)
  obtain itr1 where n: "i_next m itr = Inr (snd p, itr1)"
      "chain m (itr_next itr1) (pre @ c # post)" "itr_index itr1 = itr_index itr + 1"
    using chain_Cons_next[of m itr p "pre @ c # post"] Cons.prems(1) by auto
  have h: "i_hasNext itr" using Cons.prems(1) by (simp add: i_hasNext_def)
  define index1 where
    "index1 = (if func selector (snd p) (params selector) then itr_index itr1 else index)"
  have eq: "findLast_loop m selector itr index = findLast_loop m selector itr1 index1"
    using findLast_loop_step[OF h n(1), of selector index] by (simp add: index1_def)
  obtain itr' where
    "findLast_loop m selector itr1 index1 =
       Some (Inr (itr_index itr1 + 1 + int (length pre), itr'))"
    "itr_index itr' = itr_index itr1 + int (length (pre @ c # post))"
    using Cons.IH[OF n(2), of index1] by blast
  then show ?case using eq n(3) by simp
qed

lemma valid_list_iterator:
  assumes "valid_list m list cells"
  shows "\<exists>itr. l_iterator m list = Inr itr \<and> chain m (itr_next itr) cells \<and>
           itr_index itr = - 1 \<and> itr_current itr = NULL \<and> itr_previous itr = NULL \<and>
           itr_list itr = list"
  using assms
  by (auto simp: valid_list_def l_iterator_def read_list_def split: option.splits)

section \<open>Search\<close>

text \<open>
  Claim C9: on a well-formed list, \<open>l_findFirst\<close> returns the index of the first element
  that the predicate accepts, and its iterator stands at that element when the loop ends
  (it has made no further call of \<open>i_next\<close>); \<open>l_findLast\<close> returns the index of the last
  such element, and its iterator has reached the end of the list. Both return -1 when the
  predicate accepts no element.
\<close>

theorem l_findFirst_l_findLast:
  assumes "valid_list m list cells"
  shows "\<exists>itr first itr1 last itr2.
           l_iterator m list = Inr itr \<and>
           findFirst_loop m selector itr (- 1) = Some (Inr (first, itr1)) \<and>
           l_findFirst m list selector = Some (Inr first) \<and>
           findLast_loop m selector itr (- 1) = Some (Inr (last, itr2)) \<and>
           l_findLast m list selector = Some (Inr last) \<and>
           itr_index itr2 = int (length cells) - 1 \<and>
           (if \<exists>val \<in> set (map snd cells). func selector val (params selector)
            then 0 \<le> first \<and> first \<le> last \<and> last < int (length cells) \<and>
                 func selector (map snd cells ! nat first) (params selector) \<and>
                 (\<forall>j < nat first. \<not> func selector (map snd cells ! j) (params selector)) \<and>
                 itr_index itr1 = first \<and>
                 func selector (map snd cells ! nat last) (params selector) \<and>
                 (\<forall>j. nat last < j \<and> j < length cells \<longrightarrow>
                    \<not> func selector (map snd cells ! j) (params selector))
            else first = - 1 \<and> last = - 1)"
proof -
  define P where "P = (\<lambda>c::ptr \<times> ptr. func selector (snd c) (params selector))"
  obtain itr where i: "l_iterator m list = Inr itr" "chain m (itr_next itr) cells"
      "itr_index itr = - 1"
    using valid_list_iterator[OF assms] by blast
  have ex: "(\<exists>val \<in> set (map snd cells). func selector val (params selector)) = (\<exists>c \<in> set cells. P c)"
    by (auto simp: P_def)
  show ?thesis
  proof (cases "\<exists>c \<in> set cells. P c")
    case False
    then have none: "\<forall>c \<in> set cells. \<not> func selector (snd c) (params selector)"
      by (simp add: P_def)
    obtain itr1 where f: "findFirst_loop m selector itr (- 1) = Some (Inr (- 1, itr1))"
      using findFirst_loop_none[OF i(2) none] by blast
    obtain itr2 where l: "findLast_loop m selector itr (- 1) = Some (Inr (- 1, itr2))"
        "itr_index itr2 = itr_index itr + int (length cells)"
      using findLast_loop_none[OF i(2) none, of "- 1"] by blast
    show ?thesis
      using False i f l unfolding ex
      by (simp add: l_findFirst_def l_findLast_def)
  next
    case True
    obtain pre c post where fs: "cells = pre @ c # post" "P c" "\<forall>x \<in> set pre. \<not> P x"
      using split_list_first_prop[OF True] by blast
    obtain pre' c' post' where ls: "cells = pre' @ c' # post'" "P c'" "\<forall>x \<in> set post'. \<not> P x"
      using split_list_last_prop[OF True] by blast
    obtain itr1 where f: "findFirst_loop m selector itr (- 1) = Some (Inr (int (length pre), itr1))"
        "itr_index itr1 = int (length pre)"
      using findFirst_loop_first[of m itr pre c post selector] i(2,3) fs
      by (auto simp: P_def)
    obtain itr2 where l: "findLast_loop m selector itr (- 1) = Some (Inr (int (length pre'), itr2))"
        "itr_index itr2 = int (length cells) - 1"
      using findLast_loop_last[of m itr pre' c' post' selector "- 1"] i(2,3) ls
      by (auto simp: P_def)
    have le: "length pre \<le> length pre'"
    proof (rule ccontr)
      assume "\<not> length pre \<le> length pre'"
      then have lt: "length pre' < length pre" by simp
      have "cells ! length pre' = c'" using ls(1) by simp
      moreover have "cells ! length pre' = pre ! length pre'"
        using fs(1) lt by (simp add: nth_append)
      ultimately have "c' \<in> set pre" using lt by (metis nth_mem)
      then show False using fs(3) ls(2) by blast
    qed
    have lt: "length pre' < length cells" using ls(1) by simp
    have p1: "func selector (map snd cells ! length pre) (params selector)"
      using fs(1,2) by (simp add: P_def nth_append)
    have p2: "\<forall>j < length pre. \<not> func selector (map snd cells ! j) (params selector)"
      using fs(1,3) by (auto simp: P_def nth_append)
    have p3: "func selector (map snd cells ! length pre') (params selector)"
      using ls(1,2) by (simp add: P_def nth_append)
    have p4: "\<forall>j. length pre' < j \<and> j < length cells \<longrightarrow>
        \<not> func selector (map snd cells ! j) (params selector)"
    proof (intro allI impI)
      fix j assume j: "length pre' < j \<and> j < length cells"
      then have "cells ! j = post' ! (j - Suc (length pre'))"
        using ls(1) by (auto simp: nth_append nth_Cons')
      moreover have "j - Suc (length pre') < length post'" using j ls(1) by auto
      ultimately have "cells ! j \<in> set post'" by (metis nth_mem)
      then have "\<not> P (cells ! j)" using ls(3) by blast
      then show "\<not> func selector (map snd cells ! j) (params selector)"
        using j by (simp add: P_def)
    qed
    show ?thesis
      using True i f l le lt p1 p2 p3 p4 unfolding ex
      by (simp add: l_findFirst_def l_findLast_def)
  qed
qed

theorem l_findFirst_l_findLast_witness:
  "\<exists>list m.
     l_fromArray empty_memory [pointer 11, pointer 12, pointer 11, pointer 13] 4 = Inr (list, m) \<and>
     valid_list m list [(2, 11), (3, 12), (4, 11), (5, 13)] \<and>
     l_findFirst m list (c_predicate equality 11) = Some (Inr 0) \<and>
     l_findLast m list (c_predicate equality 11) = Some (Inr 2) \<and>
     l_findFirst m list (c_predicate equality 14) = Some (Inr (- 1)) \<and>
     l_findLast m list (c_predicate equality 14) = Some (Inr (- 1))"
proof -
  obtain list m where a:
    "l_fromArray empty_memory [pointer 11, pointer 12, pointer 11, pointer 13] 4 = Inr (list, m)"
    by (simp add: run_defs)
  have v: "valid_list m list [(2, 11), (3, 12), (4, 11), (5, 13)]"
    using a by (auto simp: run_defs valid_list_def)
  obtain first last where f:
    "l_findFirst m list (c_predicate equality 11) = Some (Inr first)"
    "l_findLast m list (c_predicate equality 11) = Some (Inr last)"
    "0 \<le> first" "last < 4"
    "[11, 12, 11, 13] ! nat first = (11::nat)"
    "\<forall>j < nat first. [11, 12, 11, 13] ! j \<noteq> (11::nat)"
    "[11, 12, 11, 13] ! nat last = (11::nat)"
    "\<forall>j. nat last < j \<and> j < 4 \<longrightarrow> [11, 12, 11, 13] ! j \<noteq> (11::nat)"
    using l_findFirst_l_findLast[OF v, of "c_predicate equality 11"]
    by (auto simp: c_predicate_def equality_def)
  have "\<not> 0 < nat first"
  proof
    assume "0 < nat first"
    with f(6) have "[11, 12, 11, 13] ! 0 \<noteq> (11::nat)" by blast
    then show False by simp
  qed
  then have first: "first = 0" using f(3) by simp
  have "\<not> nat last < 2"
  proof
    assume "nat last < 2"
    then have "nat last < 2 \<and> (2::nat) < 4" by simp
    with f(8) have "[11, 12, 11, 13] ! 2 \<noteq> (11::nat)" by blast
    then show False by simp
  qed
  moreover have "nat last \<noteq> 3" using f(7) by auto
  ultimately have last: "last = 2" using f(4) by linarith
  obtain first' last' where g:
    "l_findFirst m list (c_predicate equality 14) = Some (Inr first')"
    "l_findLast m list (c_predicate equality 14) = Some (Inr last')"
    "first' = - 1" "last' = - 1"
    using l_findFirst_l_findLast[OF v, of "c_predicate equality 14"]
    by (auto simp: c_predicate_def equality_def)
  show ?thesis using a v f(1,2) first last g by auto
qed

section \<open>The defects of C3 and C5 on every well-formed list\<close>

text \<open>
  When the address of the parameter is not itself an element of the list,
  \<open>l_removeValue\<close> leaves the memory as
  it is, \<open>l_contains\<close> answers false and \<open>l_firstIndexOf\<close> answers -1, whatever the value
  asked for.
\<close>

lemma removeIf_loop_end:
  "\<not> i_hasNext itr \<Longrightarrow> removeIf_loop m selector itr = Some (Inr (m, itr))"
  by (subst removeIf_loop.simps) simp

lemma removeIf_loop_skip:
  "i_hasNext itr \<Longrightarrow> i_next m itr = Inr (val, itr1) \<Longrightarrow>
   \<not> func selector val (params selector) \<Longrightarrow>
   removeIf_loop m selector itr = removeIf_loop m selector itr1"
  by (subst removeIf_loop.simps) simp

lemma removeIf_loop_none:
  assumes "chain m (itr_next itr) cells"
    and "\<forall>c \<in> set cells. \<not> func selector (snd c) (params selector)"
  shows "\<exists>itr'. removeIf_loop m selector itr = Some (Inr (m, itr'))"
  using assms
proof (induction cells arbitrary: itr)
  case Nil
  then show ?case by (simp add: removeIf_loop_end chain_Nil_hasNext)
next
  case (Cons c cells)
  obtain itr1 where n: "i_next m itr = Inr (snd c, itr1)" "chain m (itr_next itr1) cells"
    using chain_Cons_next[OF Cons.prems(1)] by blast
  have h: "i_hasNext itr" using Cons.prems(1) by (rule chain_Cons_hasNext)
  have "\<not> func selector (snd c) (params selector)" using Cons.prems(2) by simp
  then have "removeIf_loop m selector itr = removeIf_loop m selector itr1"
    using removeIf_loop_skip[OF h n(1)] by simp
  moreover have "\<forall>c \<in> set cells. \<not> func selector (snd c) (params selector)"
    using Cons.prems(2) by simp
  ultimately show ?case using Cons.IH[OF n(2)] by simp
qed

lemma matches_loop_end:
  "\<not> i_hasNext itr \<Longrightarrow> matches_loop m selector itr contains = Some (Inr contains)"
  by (subst matches_loop.simps) simp

lemma matches_loop_skip:
  "i_hasNext itr \<Longrightarrow> i_next m itr = Inr (val, itr1) \<Longrightarrow>
   \<not> func selector val (params selector) \<Longrightarrow>
   matches_loop m selector itr False = matches_loop m selector itr1 False"
  by (subst matches_loop.simps) simp

lemma matches_loop_none:
  assumes "chain m (itr_next itr) cells"
    and "\<forall>c \<in> set cells. \<not> func selector (snd c) (params selector)"
  shows "matches_loop m selector itr False = Some (Inr False)"
  using assms
proof (induction cells arbitrary: itr)
  case Nil
  then show ?case by (simp add: matches_loop_end chain_Nil_hasNext)
next
  case (Cons c cells)
  obtain itr1 where n: "i_next m itr = Inr (snd c, itr1)" "chain m (itr_next itr1) cells"
    using chain_Cons_next[OF Cons.prems(1)] by blast
  have h: "i_hasNext itr" using Cons.prems(1) by (rule chain_Cons_hasNext)
  have "\<not> func selector (snd c) (params selector)" using Cons.prems(2) by simp
  then have "matches_loop m selector itr False = matches_loop m selector itr1 False"
    using matches_loop_skip[OF h n(1)] by simp
  moreover have "\<forall>c \<in> set cells. \<not> func selector (snd c) (params selector)"
    using Cons.prems(2) by simp
  ultimately show ?case using Cons.IH[OF n(2)] by simp
qed

lemma value_forms_never_match:
  assumes "valid_list m list cells" and "addr_of_value \<notin> snd ` set cells"
  shows "l_removeValue addr_of_value m list val = Some (Inr m) \<and>
         l_contains addr_of_value m list val = Some (Inr False) \<and>
         l_firstIndexOf addr_of_value m list val = Some (Inr (- 1))"
proof -
  define selector where "selector = c_predicate equality addr_of_value"
  obtain itr where i: "l_iterator m list = Inr itr" "chain m (itr_next itr) cells"
    using valid_list_iterator[OF assms(1)] by blast
  have none: "\<forall>c \<in> set cells. \<not> func selector (snd c) (params selector)"
    using assms(2) by (auto simp: selector_def c_predicate_def equality_def)
  obtain itr1 where "removeIf_loop m selector itr = Some (Inr (m, itr1))"
    using removeIf_loop_none[OF i(2) none] by blast
  then have 1: "l_removeValue addr_of_value m list val = Some (Inr m)"
    using i(1) by (simp add: l_removeValue_def l_removeIf_def selector_def)
  have 2: "l_contains addr_of_value m list val = Some (Inr False)"
    using i(1) matches_loop_none[OF i(2) none]
    by (simp add: l_contains_def l_matches_def selector_def)
  obtain itr2 where "findFirst_loop m selector itr (- 1) = Some (Inr (- 1, itr2))"
    using findFirst_loop_none[OF i(2) none] by blast
  then have 3: "l_firstIndexOf addr_of_value m list val = Some (Inr (- 1))"
    using i(1) by (simp add: l_firstIndexOf_def l_findFirst_def selector_def)
  from 1 2 3 show ?thesis by blast
qed

text \<open>
  \<open>l_remove\<close> with an index out of range leaves every well-formed list as it is and
  returns the uninitialised local.
\<close>

lemma l_remove_out_of_range:
  assumes "valid_list m list cells" and "index < 0 \<or> int (length cells) \<le> index"
  shows "l_remove m list index = Inr (uninitialised, m)"
proof -
  obtain l where l: "read_list m list = Inr l" "list_size l = int (length cells)"
    using assms(1) by (auto simp: valid_list_def read_list_def split: option.splits)
  show ?thesis
  proof (cases "index = 0")
    case True
    then have "list_size l = 0" using assms(2) l(2) by simp
    then show ?thesis using True l(1) by (simp add: l_remove_def l_removeFirst_def)
  next
    case False
    show ?thesis
    proof (cases "index = list_size l - 1")
      case True
      then have "list_size l = 0" using assms(2) l(2) by auto
      then show ?thesis using False True l(1) by (simp add: l_remove_def l_removeLast_def)
    next
      case neq: False
      then show ?thesis using False assms(2) l by (auto simp: l_remove_def)
    qed
  qed
qed

section \<open>Arrays and equality of lists\<close>

text \<open>
  The nodes of a chain are distinct, and a chain from a given pointer is unique. From here
  on a chain is unfolded through the equivalence \<open>chain_Cons_iff\<close>.
\<close>

lemma chain_Cons_iff:
  "chain m p (c # cells) \<longleftrightarrow>
     p = fst c \<and> p \<noteq> NULL \<and>
     (\<exists>n. nodes m p = Some n \<and> node_value n = snd c \<and> chain m (node_next n) cells)"
  by (auto split: option.splits)

declare chain.simps(2) [simp del]

lemma chain_unique: "chain m p xs \<Longrightarrow> chain m p ys \<Longrightarrow> xs = ys"
proof (induction xs arbitrary: p ys)
  case Nil
  then show ?case by (cases ys) (auto simp: chain_Cons_iff)
next
  case (Cons x xs)
  then obtain y ys' where ys: "ys = y # ys'" by (cases ys) (auto simp: chain_Cons_iff)
  obtain n where n: "nodes m p = Some n" "node_value n = snd x" "chain m (node_next n) xs"
      "p = fst x"
    using Cons.prems(1) by (auto simp: chain_Cons_iff)
  have "node_value n = snd y" "chain m (node_next n) ys'" "p = fst y"
    using Cons.prems(2) n(1) unfolding ys by (auto simp: chain_Cons_iff)
  then show ?case using Cons.IH[OF n(3)] n ys by (simp add: prod_eq_iff)
qed

lemma chain_suffix: "chain m p (xs @ c # ys) \<Longrightarrow> chain m (fst c) (c # ys)"
proof (induction xs arbitrary: p)
  case Nil
  then show ?case by (auto simp: chain_Cons_iff)
next
  case (Cons x xs)
  then show ?case by (auto simp: chain_Cons_iff)
qed

lemma chain_head_not_in_rest:
  assumes "chain m p (c # cells)"
  shows "fst c \<notin> fst ` set cells"
proof
  assume "fst c \<in> fst ` set cells"
  then obtain c' where c': "c' \<in> set cells" "fst c' = fst c" by auto
  then obtain xs ys where split: "cells = xs @ c' # ys" by (meson split_list)
  obtain n where n: "nodes m (fst c) = Some n" "chain m (node_next n) cells"
    using assms by (auto simp: chain_Cons_iff)
  have "chain m (fst c') (c' # ys)" using n(2) split chain_suffix by blast
  then have "chain m (node_next n) ys" using c'(2) n(1) by (auto simp: chain_Cons_iff)
  then have "cells = ys" using n(2) chain_unique by blast
  then show False using split by simp
qed

lemma chain_distinct: "chain m p cells \<Longrightarrow> distinct (map fst cells)"
proof (induction cells arbitrary: p)
  case Nil
  then show ?case by simp
next
  case (Cons c cells)
  have "fst c \<notin> fst ` set cells" using Cons.prems by (rule chain_head_not_in_rest)
  moreover have "distinct (map fst cells)"
    using Cons.prems Cons.IH by (auto simp: chain_Cons_iff)
  ultimately show ?case by simp
qed

lemma chain_set_next_last:
  assumes "chain m p cells" and "cells \<noteq> []"
    and "nodes m new = Some \<lparr>node_value = val, node_next = NULL\<rparr>"
    and "new \<notin> fst ` set cells" and "new \<noteq> NULL"
  shows "\<exists>t. nodes m (fst (last cells)) = Some t \<and> fst (last cells) \<noteq> NULL \<and>
           chain (store_node m (fst (last cells)) (t\<lparr>node_next := new\<rparr>)) p
             (cells @ [(new, val)])"
  using assms(1,2,4)
proof (induction cells arbitrary: p)
  case Nil
  then show ?case by simp
next
  case (Cons c cells)
  obtain n where n: "nodes m p = Some n" "node_value n = snd c" "chain m (node_next n) cells"
      "p = fst c" "p \<noteq> NULL"
    using Cons.prems(1) by (auto simp: chain_Cons_iff)
  show ?case
  proof (cases "cells = []")
    case True
    then have "node_next n = NULL" using n(3) by simp
    then show ?thesis using True n assms(3,5) Cons.prems(3)
      by (auto simp: store_node_def chain_Cons_iff)
  next
    case False
    have "new \<notin> fst ` set cells" using Cons.prems(3) by simp
    from Cons.IH[OF n(3) False this] obtain t where t:
      "nodes m (fst (last cells)) = Some t" "fst (last cells) \<noteq> NULL"
      "chain (store_node m (fst (last cells)) (t\<lparr>node_next := new\<rparr>)) (node_next n)
         (cells @ [(new, val)])" by blast
    have "fst c \<notin> fst ` set cells" using Cons.prems(1) by (rule chain_head_not_in_rest)
    then have "fst (last cells) \<noteq> p" using False n(4) by (metis imageI last_in_set)
    then show ?thesis using False t n by (auto simp: store_node_def chain_Cons_iff)
  qed
qed


lemma chain_cong:
  "\<forall>a \<in> fst ` set cells. nodes m' a = nodes m a \<Longrightarrow> chain m' p cells = chain m p cells"
proof (induction cells arbitrary: p)
  case Nil
  then show ?case by simp
next
  case (Cons c cells)
  have a: "nodes m' (fst c) = nodes m (fst c)" using Cons.prems by simp
  have b: "\<And>q. chain m' q cells = chain m q cells"
    using Cons.IH Cons.prems by simp
  show ?case by (cases "p = fst c") (simp_all add: a b chain_Cons_iff)
qed

lemma valid_list_cong:
  assumes "lists m' list = lists m list"
    and "\<forall>a \<in> fst ` set cells. nodes m' a = nodes m a"
  shows "valid_list m' list cells = valid_list m list cells"
  using assms(1) chain_cong[OF assms(2)]
  by (simp add: valid_list_def split: option.splits)

lemma l_addLast_valid:
  assumes v: "valid_list m list cells" and a: "allocated m list cells"
  shows "\<exists>m'. l_addLast m list val = Inr m' \<and>
           valid_list m' list (cells @ [(last_alloc m + 1, val)]) \<and>
           last_alloc m' = last_alloc m + 1 \<and>
           (\<forall>p. p \<noteq> list \<longrightarrow> lists m' p = lists m p) \<and>
           (\<forall>a. a \<le> last_alloc m \<and> a \<notin> fst ` set cells \<longrightarrow> nodes m' a = nodes m a)"
proof -
  obtain l where l: "lists m list = Some l" "list \<noteq> NULL" "chain m (list_head l) cells"
      "list_size l = int (length cells)"
      "list_tail l = (if cells = [] then NULL else fst (last cells))"
    using v by (auto simp: valid_list_def split: option.splits)
  have rl: "read_list m list = Inr l" using l by (simp add: read_list_def)
  define new where "new = last_alloc m + 1"
  define m1 where
    "m1 = m\<lparr>nodes := (nodes m)(new \<mapsto> \<lparr>node_value = val, node_next = NULL\<rparr>), last_alloc := new\<rparr>"
  have mn: "malloc_node m \<lparr>node_value = val, node_next = NULL\<rparr> = (new, m1)"
    by (simp add: malloc_node_def new_def m1_def Let_def)
  have fresh: "new \<notin> fst ` set cells"
    using a by (auto simp: allocated_def new_def list_all_iff)
  have new0: "new \<noteq> NULL" by (simp add: new_def)
  show ?thesis
  proof (cases "cells = []")
    case True
    define m' where
      "m' = store_list m1 list (l\<lparr>list_head := new, list_tail := new, list_size := list_size l + 1\<rparr>)"
    have r: "l_addLast m list val = Inr m'"
      using rl mn True l(4) by (simp add: l_addLast_def m'_def)
    have "valid_list m' list (cells @ [(new, val)])"
      using True l new0 by (simp add: valid_list_def m'_def m1_def store_list_def chain_Cons_iff)
    moreover have "last_alloc m' = new" by (simp add: m'_def m1_def store_list_def)
    moreover have "\<forall>p. p \<noteq> list \<longrightarrow> lists m' p = lists m p"
      by (simp add: m'_def m1_def store_list_def)
    moreover have "\<forall>a. a \<le> last_alloc m \<and> a \<notin> fst ` set cells \<longrightarrow> nodes m' a = nodes m a"
      by (simp add: m'_def m1_def store_list_def new_def)
    ultimately show ?thesis using r unfolding new_def by blast
  next
    case False
    have "\<forall>a \<in> fst ` set cells. nodes m1 a = nodes m a"
      using fresh by (auto simp: m1_def)
    then have c1: "chain m1 (list_head l) cells"
      using l(3) chain_cong by blast
    have n1: "nodes m1 new = Some \<lparr>node_value = val, node_next = NULL\<rparr>"
      by (simp add: m1_def)
    obtain t where t: "nodes m1 (fst (last cells)) = Some t" "fst (last cells) \<noteq> NULL"
        "chain (store_node m1 (fst (last cells)) (t\<lparr>node_next := new\<rparr>)) (list_head l)
           (cells @ [(new, val)])"
      using chain_set_next_last[OF c1 False n1 fresh new0] by blast
    define m2 where "m2 = store_node m1 (fst (last cells)) (t\<lparr>node_next := new\<rparr>)"
    define m' where
      "m' = store_list m2 list (l\<lparr>list_tail := new, list_size := list_size l + 1\<rparr>)"
    have sn: "set_next m1 (list_tail l) new = Inr m2"
      using t False l(5) by (simp add: set_next_def read_node_def m2_def)
    have r: "l_addLast m list val = Inr m'"
      using rl mn False l(4) sn by (simp add: l_addLast_def m'_def)
    have "\<forall>a \<in> fst ` set (cells @ [(new, val)]). nodes m' a = nodes m2 a"
      by (simp add: m'_def store_list_def)
    then have "chain m' (list_head l) (cells @ [(new, val)])"
      using t(3) chain_cong unfolding m2_def by blast
    then have "valid_list m' list (cells @ [(new, val)])"
      using l by (simp add: valid_list_def m'_def store_list_def)
    moreover have "last_alloc m' = new"
      by (simp add: m'_def m2_def m1_def store_list_def store_node_def)
    moreover have "\<forall>p. p \<noteq> list \<longrightarrow> lists m' p = lists m p"
      by (simp add: m'_def m2_def m1_def store_list_def store_node_def)
    moreover have "\<forall>a. a \<le> last_alloc m \<and> a \<notin> fst ` set cells \<longrightarrow> nodes m' a = nodes m a"
      using False by (auto simp: m'_def m2_def m1_def store_list_def store_node_def new_def)
    ultimately show ?thesis using r unfolding new_def by blast
  qed
qed


lemma addArray_loop_valid:
  assumes "valid_list m list cells" and "allocated m list cells" and "i + k \<le> length vals"
  shows "\<exists>m' new. addArray_loop k i m list (map pointer vals) = Inr m' \<and>
           valid_list m' list (cells @ new) \<and> allocated m' list (cells @ new) \<and>
           map snd new = take k (drop i vals) \<and>
           last_alloc m \<le> last_alloc m' \<and>
           (\<forall>p. p \<noteq> list \<longrightarrow> lists m' p = lists m p) \<and>
           (\<forall>a. a \<le> last_alloc m \<and> a \<notin> fst ` set cells \<longrightarrow> nodes m' a = nodes m a)"
  using assms
proof (induction k arbitrary: i m cells)
  case 0
  then show ?case by (intro exI[of _ m] exI[of _ "[]"]) simp
next
  case (Suc k)
  have i: "i < length vals" using Suc.prems(3) by simp
  define c where "c = (last_alloc m + 1, vals ! i)"
  obtain m1 where m1: "l_addLast m list (vals ! i) = Inr m1"
      "valid_list m1 list (cells @ [c])"
      "last_alloc m1 = last_alloc m + 1"
      "\<forall>p. p \<noteq> list \<longrightarrow> lists m1 p = lists m p"
      "\<forall>a. a \<le> last_alloc m \<and> a \<notin> fst ` set cells \<longrightarrow> nodes m1 a = nodes m a"
    using l_addLast_valid[OF Suc.prems(1,2), of "vals ! i"] unfolding c_def by blast
  have a1: "allocated m1 list (cells @ [c])"
    using Suc.prems(2) m1(3) by (auto simp: allocated_def c_def list_all_iff)
  have "Suc i + k \<le> length vals" using Suc.prems(3) by simp
  from Suc.IH[OF m1(2) a1 this] obtain m' new where r:
    "addArray_loop k (Suc i) m1 list (map pointer vals) = Inr m'"
    "valid_list m' list ((cells @ [c]) @ new)" "allocated m' list ((cells @ [c]) @ new)"
    "map snd new = take k (drop (Suc i) vals)"
    "last_alloc m1 \<le> last_alloc m'"
    "\<forall>p. p \<noteq> list \<longrightarrow> lists m' p = lists m1 p"
    "\<forall>a. a \<le> last_alloc m1 \<and> a \<notin> fst ` set (cells @ [c]) \<longrightarrow> nodes m' a = nodes m1 a"
    by blast
  have run: "addArray_loop (Suc k) i m list (map pointer vals) = Inr m'"
    using i m1(1) r(1) by simp
  have vals: "map snd (c # new) = take (Suc k) (drop i vals)"
    using r(4) i by (simp add: c_def Cons_nth_drop_Suc[symmetric])
  have frame: "\<forall>a. a \<le> last_alloc m \<and> a \<notin> fst ` set cells \<longrightarrow> nodes m' a = nodes m a"
    using r(7) m1(3,5) by (auto simp: c_def)
  show ?case
    using run r(2,3) vals r(5) m1(3) r(6) m1(4) frame
    by (intro exI[of _ m'] exI[of _ "c # new"]) simp
qed

lemma l_fromArray_valid:
  assumes "valid_list m list cells" and "allocated m list cells"
  shows "\<exists>list' m' cells'.
           l_fromArray m (map pointer vals) (int (length vals)) = Inr (list', m') \<and>
           valid_list m' list' cells' \<and> map snd cells' = vals \<and>
           valid_list m' list cells"
proof -
  define list' where "list' = last_alloc m + 1"
  define m1 where "m1 = snd (l_create m)"
  have c: "l_create m = (list', m1)" by (simp add: l_create_def list'_def m1_def Let_def)
  have m1: "lists m1 list' = Some \<lparr>list_head = NULL, list_tail = NULL,
              list_destructor = default_destructor, list_size = 0\<rparr>"
      "nodes m1 = nodes m" "last_alloc m1 = list'" "\<forall>p. p \<noteq> list' \<longrightarrow> lists m1 p = lists m p"
    by (simp_all add: m1_def l_create_def list'_def Let_def)
  have v1: "valid_list m1 list' []" using m1(1) by (simp add: valid_list_def list'_def)
  have a1: "allocated m1 list' []" using m1(3) by (simp add: allocated_def)
  obtain m' new where r:
    "addArray_loop (length vals) 0 m1 list' (map pointer vals) = Inr m'"
    "valid_list m' list' ([] @ new)" "map snd new = take (length vals) (drop 0 vals)"
    "\<forall>p. p \<noteq> list' \<longrightarrow> lists m' p = lists m1 p"
    "\<forall>a. a \<le> last_alloc m1 \<and> a \<notin> fst ` set [] \<longrightarrow> nodes m' a = nodes m1 a"
    using addArray_loop_valid[OF v1 a1, of 0 "length vals" vals] by auto
  have run: "l_fromArray m (map pointer vals) (int (length vals)) = Inr (list', m')"
    using c r(1) by (simp add: l_fromArray_def l_addArray_def)
  have ne: "list \<noteq> list'" using assms(2) by (simp add: allocated_def list'_def)
  have "lists m' list = lists m list" using ne r(4) m1(4) by simp
  moreover have "\<forall>a \<in> fst ` set cells. nodes m' a = nodes m a"
    using assms(2) r(5) m1(2,3) by (auto simp: allocated_def list_all_iff list'_def)
  ultimately have "valid_list m' list cells"
    using assms(1) valid_list_cong by blast
  then show ?thesis using run r(2,3) by auto
qed


lemma toArray_loop_end:
  "\<not> i_hasNext itr \<Longrightarrow> toArray_loop m itr array i = Some (Inr array)"
  by (subst toArray_loop.simps) simp

lemma toArray_loop_step:
  "i_hasNext itr \<Longrightarrow> i_next m itr = Inr (val, itr1) \<Longrightarrow> i < length array \<Longrightarrow>
   toArray_loop m itr array i = toArray_loop m itr1 (array[i := pointer val]) (Suc i)"
  by (subst toArray_loop.simps) simp

lemma toArray_loop_chain:
  assumes "chain m (itr_next itr) cells" and "i + length cells \<le> length array"
  shows "toArray_loop m itr array i =
           Some (Inr (take i array @ map (\<lambda>c. pointer (snd c)) cells @
                      drop (i + length cells) array))"
  using assms
proof (induction cells arbitrary: itr array i)
  case Nil
  then show ?case by (simp add: toArray_loop_end chain_Nil_hasNext)
next
  case (Cons c cells)
  obtain itr1 where n: "i_next m itr = Inr (snd c, itr1)" "chain m (itr_next itr1) cells"
    using chain_Cons_next[OF Cons.prems(1)] by blast
  have h: "i_hasNext itr" using Cons.prems(1) by (rule chain_Cons_hasNext)
  have i: "i < length array" using Cons.prems(2) by simp
  define array1 where "array1 = array[i := pointer (snd c)]"
  have step: "toArray_loop m itr array i = toArray_loop m itr1 array1 (Suc i)"
    using toArray_loop_step[OF h n(1) i] by (simp add: array1_def)
  have "Suc i + length cells \<le> length array1" using Cons.prems(2) by (simp add: array1_def)
  from Cons.IH[OF n(2) this] have ih:
    "toArray_loop m itr1 array1 (Suc i) =
       Some (Inr (take (Suc i) array1 @ map (\<lambda>c. pointer (snd c)) cells @
                  drop (Suc i + length cells) array1))" .
  have t: "take (Suc i) array1 = take i array @ [pointer (snd c)]"
    using i by (simp add: array1_def take_Suc_conv_app_nth)
  have d: "drop (Suc i + length cells) array1 = drop (Suc i + length cells) array"
    by (simp add: array1_def)
  show ?case unfolding step ih t d by simp
qed

lemma l_toArray_valid:
  assumes "valid_list m list cells"
  shows "l_toArray m list = Some (Inr (map pointer (map snd cells)))"
proof -
  obtain itr where i: "l_iterator m list = Inr itr" "chain m (itr_next itr) cells"
    using valid_list_iterator[OF assms] by blast
  obtain l where l: "read_list m list = Inr l" "list_size l = int (length cells)"
    using assms by (auto simp: valid_list_def read_list_def split: option.splits)
  have "toArray_loop m itr (replicate (length cells) uninitialised) 0 =
          Some (Inr (map pointer (map snd cells)))"
    using toArray_loop_chain[OF i(2), of 0 "replicate (length cells) uninitialised"]
    by (simp add: comp_def)
  then show ?thesis using i(1) l by (simp add: l_toArray_def)
qed

lemma equal_loop_end:
  "\<not> (i_hasNext itr1 \<and> i_hasNext itr2 \<and> equal) \<Longrightarrow>
   equal_loop m itr1 itr2 equal = Some (Inr equal)"
  by (subst equal_loop.simps) (simp only: if_False)

lemma equal_loop_step:
  "i_hasNext itr1 \<Longrightarrow> i_hasNext itr2 \<Longrightarrow> i_next m itr1 = Inr (val1, itr1') \<Longrightarrow>
   i_next m itr2 = Inr (val2, itr2') \<Longrightarrow>
   equal_loop m itr1 itr2 True = equal_loop m itr1' itr2' (val1 = val2)"
  by (subst equal_loop.simps) simp

lemma equal_loop_chain:
  assumes "chain m (itr_next itr1) cells1" and "chain m (itr_next itr2) cells2"
  shows "equal_loop m itr1 itr2 equal =
           Some (Inr (equal \<and> (\<forall>(a, b) \<in> set (zip (map snd cells1) (map snd cells2)). a = b)))"
  using assms
proof (induction cells1 arbitrary: itr1 itr2 cells2 equal)
  case Nil
  then show ?case by (simp add: equal_loop_end chain_Nil_hasNext)
next
  case (Cons c1 cells1)
  show ?case
  proof (cases cells2)
    case Nil
    then show ?thesis using Cons.prems(2) by (simp add: equal_loop_end chain_Nil_hasNext)
  next
    case (Cons c2 cells2')
    show ?thesis
    proof (cases equal)
      case False
      then show ?thesis by (simp add: equal_loop_end)
    next
      case True
      obtain itr1' where n1: "i_next m itr1 = Inr (snd c1, itr1')"
          "chain m (itr_next itr1') cells1"
        using chain_Cons_next[OF Cons.prems(1)] by blast
      obtain itr2' where n2: "i_next m itr2 = Inr (snd c2, itr2')"
          "chain m (itr_next itr2') cells2'"
        using chain_Cons_next[of m itr2 c2 cells2'] Cons.prems(2) Cons by blast
      have h1: "i_hasNext itr1" using Cons.prems(1) by (rule chain_Cons_hasNext)
      have h2: "i_hasNext itr2" using Cons.prems(2) Cons chain_Cons_hasNext by blast
      have "equal_loop m itr1 itr2 True = equal_loop m itr1' itr2' (snd c1 = snd c2)"
        using equal_loop_step[OF h1 h2 n1(1) n2(1)] .
      also have "\<dots> = Some (Inr (snd c1 = snd c2 \<and>
          (\<forall>(a, b) \<in> set (zip (map snd cells1) (map snd cells2')). a = b)))"
        using Cons.IH[OF n1(2) n2(2)] .
      finally show ?thesis using True Cons by simp
    qed
  qed
qed

lemma l_equal_valid:
  assumes "valid_list m list1 cells1" and "valid_list m list2 cells2"
  shows "l_equal m list1 list2 = Some (Inr (map snd cells1 = map snd cells2))"
proof -
  obtain itr1 where i1: "l_iterator m list1 = Inr itr1" "chain m (itr_next itr1) cells1"
    using valid_list_iterator[OF assms(1)] by blast
  obtain itr2 where i2: "l_iterator m list2 = Inr itr2" "chain m (itr_next itr2) cells2"
    using valid_list_iterator[OF assms(2)] by blast
  obtain l1 where l1: "read_list m list1 = Inr l1" "list_size l1 = int (length cells1)"
    using assms(1) by (auto simp: valid_list_def read_list_def split: option.splits)
  obtain l2 where l2: "read_list m list2 = Inr l2" "list_size l2 = int (length cells2)"
    using assms(2) by (auto simp: valid_list_def read_list_def split: option.splits)
  have "l_equal m list1 list2 =
          Some (Inr (length cells1 = length cells2 \<and>
            (\<forall>(a, b) \<in> set (zip (map snd cells1) (map snd cells2)). a = b)))"
    using i1 i2 l1 l2 equal_loop_chain[OF i1(2) i2(2)] by (simp add: l_equal_def)
  also have "(length cells1 = length cells2 \<and>
            (\<forall>(a, b) \<in> set (zip (map snd cells1) (map snd cells2)). a = b)) =
          (map snd cells1 = map snd cells2)"
    by (simp add: list_eq_iff_zip_eq)
  finally show ?thesis .
qed

text \<open>
  Claim C8: for every well-formed list (whose objects \<open>malloc\<close> handed out),
  \<open>l_toArray\<close> returns the array of its values, \<open>l_fromArray\<close> of that array and the
  list's size returns a new list, and \<open>l_equal\<close> of the new list and the original one
  is true. \<open>l_equal\<close> of two well-formed lists is true exactly when their sequences of
  values are the same: the same length and the same pointer at every position.
\<close>

theorem l_fromArray_l_toArray_equal:
  assumes "valid_list m list cells" and "allocated m list cells"
    and "valid_list m list2 cells2"
  shows "(\<exists>l array list' m'.
            read_list m list = Inr l \<and>
            l_toArray m list = Some (Inr array) \<and>
            array = map pointer (map snd cells) \<and>
            l_fromArray m array (list_size l) = Inr (list', m') \<and>
            l_equal m' list' list = Some (Inr True)) \<and>
         l_equal m list list2 = Some (Inr (map snd cells = map snd cells2))"
proof -
  obtain l where l: "read_list m list = Inr l" "list_size l = int (length cells)"
    using assms(1) by (auto simp: valid_list_def read_list_def split: option.splits)
  obtain list' m' cells' where r:
    "l_fromArray m (map pointer (map snd cells)) (int (length (map snd cells))) = Inr (list', m')"
    "valid_list m' list' cells'" "map snd cells' = map snd cells" "valid_list m' list cells"
    using l_fromArray_valid[OF assms(1,2), of "map snd cells"] by blast
  have "l_equal m' list' list = Some (Inr True)"
    using l_equal_valid[OF r(2,4)] r(3) by simp
  then show ?thesis
    using l r(1) l_toArray_valid[OF assms(1)] l_equal_valid[OF assms(1,3)] by simp
qed

theorem l_fromArray_l_toArray_equal_witness:
  "\<exists>listA m1 listB m.
     l_fromArray empty_memory [pointer 11, pointer 12] 2 = Inr (listA, m1) \<and>
     l_fromArray m1 [pointer 11, pointer 13] 2 = Inr (listB, m) \<and>
     valid_list m listA [(2, 11), (3, 12)] \<and>
     allocated m listA [(2, 11), (3, 12)] \<and>
     valid_list m listB [(5, 11), (6, 13)] \<and>
     (\<exists>list' m'.
        l_toArray m listA = Some (Inr [pointer 11, pointer 12]) \<and>
        l_fromArray m [pointer 11, pointer 12] 2 = Inr (list', m') \<and>
        l_equal m' list' listA = Some (Inr True)) \<and>
     l_equal m listA listB = Some (Inr False) \<and>
     l_equal m listA listA = Some (Inr True)"
proof -
  obtain listA m1 where a: "l_fromArray empty_memory [pointer 11, pointer 12] 2 = Inr (listA, m1)"
    by (simp add: run_defs)
  obtain listB m where b: "l_fromArray m1 [pointer 11, pointer 13] 2 = Inr (listB, m)"
    using a by (auto simp: run_defs)
  have vA: "valid_list m listA [(2, 11), (3, 12)]"
    using a b by (auto simp: run_defs valid_list_def chain.simps)
  have aA: "allocated m listA [(2, 11), (3, 12)]"
    using a b by (auto simp: run_defs allocated_def)
  have vB: "valid_list m listB [(5, 11), (6, 13)]"
    using a b by (auto simp: run_defs valid_list_def chain.simps)
  have l: "read_list m listA = Inr l \<Longrightarrow> list_size l = 2" for l
    using vA by (auto simp: valid_list_def read_list_def split: option.splits if_splits)
  from l_fromArray_l_toArray_equal[OF vA aA vB] l_fromArray_l_toArray_equal[OF vA aA vA]
    a b vA aA vB l
  show ?thesis by auto
qed

section \<open>Removal of matching elements when the first element stays\<close>

text \<open>
  The defect of \<open>i_remove\<close> is confined to the head and the tail references. When the
  node to remove has a predecessor, \<open>i_remove\<close> unlinks exactly that node; so on a
  well-formed list whose first element the predicate rejects, \<open>l_removeIf\<close> returns, the
  nodes reached from the head are the elements that the predicate rejects, in their
  order, and the size is their number. (The tail reference is not covered: it dangles
  when the last element was removed.)
\<close>

lemma chain_unlink:
  assumes "chain m p (kept @ c # rest)" and "kept \<noteq> []"
  shows "\<exists>t n. nodes m (fst (last kept)) = Some t \<and> nodes m (fst c) = Some n \<and>
           fst (last kept) \<noteq> NULL \<and> fst c \<noteq> NULL \<and> fst (last kept) \<noteq> fst c \<and>
           node_value n = snd c \<and> chain m (node_next n) rest \<and>
           chain (m\<lparr>nodes := (nodes m)(fst (last kept) \<mapsto> t\<lparr>node_next := node_next n\<rparr>,
                                        fst c := None)\<rparr>) p (kept @ rest)"
  using assms
proof (induction kept arbitrary: p)
  case Nil
  then show ?case by simp
next
  case (Cons k kept)
  have d: "distinct (map fst ((k # kept) @ c # rest))"
    using Cons.prems(1) by (rule chain_distinct)
  obtain nk where nk: "nodes m p = Some nk" "node_value nk = snd k" "p = fst k" "p \<noteq> NULL"
      "chain m (node_next nk) (kept @ c # rest)"
    using Cons.prems(1) by (auto simp: chain_Cons_iff)
  show ?case
  proof (cases "kept = []")
    case True
    obtain n where n: "nodes m (fst c) = Some n" "node_value n = snd c" "fst c \<noteq> NULL"
        "node_next nk = fst c" "chain m (node_next n) rest"
      using nk(5) True by (auto simp: chain_Cons_iff)
    define m' where "m' = m\<lparr>nodes := (nodes m)(fst k \<mapsto> nk\<lparr>node_next := node_next n\<rparr>,
                                        fst c := None)\<rparr>"
    have out: "fst k \<notin> fst ` set rest" "fst c \<notin> fst ` set rest"
      using d True by auto
    have "\<forall>a \<in> fst ` set rest. nodes m' a = nodes m a"
    proof
      fix a assume "a \<in> fst ` set rest"
      then have "a \<noteq> fst k" "a \<noteq> fst c" using out by blast+
      then show "nodes m' a = nodes m a" by (simp add: m'_def)
    qed
    then have "chain m' (node_next n) rest" using n(5) chain_cong by blast
    moreover have ne: "fst k \<noteq> fst c" using d True by simp
    ultimately have "chain m' p ((k # kept) @ rest)"
      using nk True by (simp add: chain_Cons_iff m'_def)
    then have ch: "chain (m\<lparr>nodes := (nodes m)(fst k \<mapsto> nk\<lparr>node_next := node_next n\<rparr>,
                                        fst c := None)\<rparr>) p ((k # kept) @ rest)"
      by (simp only: m'_def)
    have lastk: "last (k # kept) = k" using True by simp
    have nk': "nodes m (fst k) = Some nk" "fst k \<noteq> NULL" using nk by simp_all
    show ?thesis
      unfolding lastk
      by (rule exI[where x = nk], rule exI[where x = n], intro conjI)
        (rule nk' n ne ch)+
  next
    case False
    from Cons.IH[OF nk(5) False] obtain t n where r:
      "nodes m (fst (last kept)) = Some t" "nodes m (fst c) = Some n"
      "fst (last kept) \<noteq> NULL" "fst c \<noteq> NULL" "fst (last kept) \<noteq> fst c"
      "node_value n = snd c" "chain m (node_next n) rest"
      "chain (m\<lparr>nodes := (nodes m)(fst (last kept) \<mapsto> t\<lparr>node_next := node_next n\<rparr>,
                                   fst c := None)\<rparr>) (node_next nk) (kept @ rest)"
      by blast
    have "last kept \<in> set kept" using False by simp
    then have "fst k \<noteq> fst (last kept)" using d by auto
    moreover have "fst k \<noteq> fst c" using d by auto
    ultimately have "chain (m\<lparr>nodes := (nodes m)(fst (last kept) \<mapsto> t\<lparr>node_next := node_next n\<rparr>,
                                   fst c := None)\<rparr>) p ((k # kept) @ rest)"
      using r(8) nk by (simp add: chain_Cons_iff)
    then have ch: "chain (m\<lparr>nodes := (nodes m)(fst (last kept) \<mapsto> t\<lparr>node_next := node_next n\<rparr>,
                                   fst c := None)\<rparr>) p ((k # kept) @ rest)" .
    have lastk: "last (k # kept) = last kept" using False by simp
    show ?thesis
      unfolding lastk
      by (rule exI[where x = t], rule exI[where x = n], intro conjI)
        (rule r ch)+
  qed
qed


lemma chain_Cons_next_node:
  assumes "chain m (itr_next itr) (c # cells)"
  shows "\<exists>n. nodes m (fst c) = Some n \<and>
           i_next m itr = Inr (snd c,
             itr\<lparr>itr_previous :=
                   (if itr_current itr \<noteq> NULL then itr_current itr else itr_previous itr),
                 itr_current := fst c, itr_next := node_next n,
                 itr_index := itr_index itr + 1\<rparr>)"
  using assms by (auto simp: chain_Cons_iff i_next_def read_node_def)

lemma removeIf_loop_remove:
  "i_hasNext itr \<Longrightarrow> i_next m itr = Inr (val, itr1) \<Longrightarrow>
   func selector val (params selector) \<Longrightarrow> i_remove m itr1 = Inr (removed, m1, itr2) \<Longrightarrow>
   removeIf_loop m selector itr = removeIf_loop m1 selector itr2"
  by (subst removeIf_loop.simps) simp

lemma i_remove_unlink:
  assumes "chain m head (kept @ c # rest)" and "kept \<noteq> []"
    and "nodes m (fst c) = Some n"
    and "itr_current itr = fst c" and "itr_previous itr = fst (last kept)"
    and "itr_next itr = node_next n" and "read_list m (itr_list itr) = Inr l"
  shows "\<exists>m'. i_remove m itr = Inr (snd c, m', itr\<lparr>itr_current := NULL\<rparr>) \<and>
           chain m' head (kept @ rest) \<and> chain m' (node_next n) rest \<and>
           read_list m' (itr_list itr) = Inr (l\<lparr>list_size := list_size l - 1\<rparr>)"
proof -
  obtain t n' where u: "nodes m (fst (last kept)) = Some t" "nodes m (fst c) = Some n'"
      "fst (last kept) \<noteq> NULL" "fst c \<noteq> NULL" "fst (last kept) \<noteq> fst c"
      "node_value n' = snd c" "chain m (node_next n') rest"
      "chain (m\<lparr>nodes := (nodes m)(fst (last kept) \<mapsto> t\<lparr>node_next := node_next n'\<rparr>,
                                   fst c := None)\<rparr>) head (kept @ rest)"
    using chain_unlink[OF assms(1,2)] by blast
  have nn: "n' = n" using u(2) assms(3) by simp
  define m2 where "m2 = m\<lparr>nodes := (nodes m)(fst (last kept) \<mapsto> t\<lparr>node_next := node_next n\<rparr>,
                                   fst c := None)\<rparr>"
  define m' where "m' = store_list m2 (itr_list itr) (l\<lparr>list_size := list_size l - 1\<rparr>)"
  have rl: "itr_list itr \<noteq> NULL" "lists m (itr_list itr) = Some l"
    using assms(7) by (auto simp: read_list_def split: if_splits option.splits)
  have sn: "set_next m (itr_previous itr) (itr_next itr) =
              Inr (store_node m (fst (last kept)) (t\<lparr>node_next := node_next n\<rparr>))"
    using u(1,3) assms(5,6) by (simp add: set_next_def read_node_def)
  have fr: "free_node (store_node m (fst (last kept)) (t\<lparr>node_next := node_next n\<rparr>)) (fst c) =
              Inr m2"
    using u(2,4,5) by (simp add: free_node_def store_node_def m2_def)
  have rl2: "read_list m2 (itr_list itr) = Inr l"
    using rl by (simp add: read_list_def m2_def)
  have run: "i_remove m itr = Inr (snd c, m', itr\<lparr>itr_current := NULL\<rparr>)"
    using u(2,4,6) nn assms(4) sn fr rl2
    by (simp add: i_remove_def read_node_def m'_def)
  have c2: "chain m2 head (kept @ rest)" using u(8) nn by (simp add: m2_def)
  have d: "distinct (map fst (kept @ c # rest))" using assms(1) by (rule chain_distinct)
  have "last kept \<in> set kept" using assms(2) by simp
  then have out: "fst (last kept) \<notin> fst ` set rest" "fst c \<notin> fst ` set rest"
    using d by auto
  have "\<forall>a \<in> fst ` set rest. nodes m2 a = nodes m a"
  proof
    fix a assume "a \<in> fst ` set rest"
    then have "a \<noteq> fst (last kept)" "a \<noteq> fst c" using out by blast+
    then show "nodes m2 a = nodes m a" by (simp add: m2_def)
  qed
  then have c3: "chain m2 (node_next n) rest" using u(7) nn chain_cong by blast
  have "nodes m' = nodes m2" by (simp add: m'_def store_list_def)
  then have "chain m' head (kept @ rest)" "chain m' (node_next n) rest"
    using c2 c3 chain_cong[of _ m' m2] by simp_all
  moreover have "read_list m' (itr_list itr) = Inr (l\<lparr>list_size := list_size l - 1\<rparr>)"
    using rl(1) by (simp add: read_list_def m'_def store_list_def)
  ultimately show ?thesis using run by blast
qed


lemma removeIf_loop_kept:
  assumes "chain m head (kept @ rest)" and "kept \<noteq> []"
    and "chain m (itr_next itr) rest"
    and "(if itr_current itr \<noteq> NULL then itr_current itr else itr_previous itr) =
           fst (last kept)"
    and "read_list m (itr_list itr) = Inr l"
  shows "\<exists>m' itr'. removeIf_loop m selector itr = Some (Inr (m', itr')) \<and>
           chain m' head
             (kept @ filter (\<lambda>c. \<not> func selector (snd c) (params selector)) rest) \<and>
           read_list m' (itr_list itr) =
             Inr (l\<lparr>list_size := list_size l -
                int (length (filter (\<lambda>c. func selector (snd c) (params selector)) rest))\<rparr>)"
  using assms
proof (induction rest arbitrary: m itr kept l)
  case Nil
  then show ?case by (simp add: removeIf_loop_end chain_Nil_hasNext)
next
  case (Cons c rest)
  obtain n where n: "nodes m (fst c) = Some n"
      "i_next m itr = Inr (snd c,
             itr\<lparr>itr_previous :=
                   (if itr_current itr \<noteq> NULL then itr_current itr else itr_previous itr),
                 itr_current := fst c, itr_next := node_next n,
                 itr_index := itr_index itr + 1\<rparr>)"
    using chain_Cons_next_node[OF Cons.prems(3)] by blast
  define itr1 where "itr1 = itr\<lparr>itr_previous :=
                   (if itr_current itr \<noteq> NULL then itr_current itr else itr_previous itr),
                 itr_current := fst c, itr_next := node_next n,
                 itr_index := itr_index itr + 1\<rparr>"
  have nx: "i_next m itr = Inr (snd c, itr1)" using n(2) by (simp add: itr1_def)
  have h: "i_hasNext itr" using Cons.prems(3) by (rule chain_Cons_hasNext)
  have c0: "fst c \<noteq> NULL" "node_value n = snd c" "chain m (node_next n) rest"
    using Cons.prems(3) n(1) by (auto simp: chain_Cons_iff)
  have i1: "itr_current itr1 = fst c" "itr_previous itr1 = fst (last kept)"
      "itr_next itr1 = node_next n" "itr_list itr1 = itr_list itr"
    using Cons.prems(4) by (simp_all add: itr1_def)
  show ?case
  proof (cases "func selector (snd c) (params selector)")
    case False
    have eq: "removeIf_loop m selector itr = removeIf_loop m selector itr1"
      using removeIf_loop_skip[OF h nx False] .
    have a: "chain m head ((kept @ [c]) @ rest)" using Cons.prems(1) by simp
    have b: "kept @ [c] \<noteq> []" by simp
    have cc: "chain m (itr_next itr1) rest" using c0(3) i1(3) by simp
    have d: "(if itr_current itr1 \<noteq> NULL then itr_current itr1 else itr_previous itr1) =
               fst (last (kept @ [c]))"
      using c0(1) i1(1) by simp
    have e: "read_list m (itr_list itr1) = Inr l" using Cons.prems(5) i1(4) by simp
    from Cons.IH[OF a b cc d e] obtain m' itr' where r:
      "removeIf_loop m selector itr1 = Some (Inr (m', itr'))"
      "chain m' head
         ((kept @ [c]) @ filter (\<lambda>c. \<not> func selector (snd c) (params selector)) rest)"
      "read_list m' (itr_list itr1) =
         Inr (l\<lparr>list_size := list_size l -
            int (length (filter (\<lambda>c. func selector (snd c) (params selector)) rest))\<rparr>)"
      by blast
    show ?thesis using r False eq i1(4) by simp
  next
    case True
    have rl1: "read_list m (itr_list itr1) = Inr l" using Cons.prems(5) i1(4) by simp
    obtain m1 where m1: "i_remove m itr1 = Inr (snd c, m1, itr1\<lparr>itr_current := NULL\<rparr>)"
        "chain m1 head (kept @ rest)" "chain m1 (node_next n) rest"
        "read_list m1 (itr_list itr1) = Inr (l\<lparr>list_size := list_size l - 1\<rparr>)"
      using i_remove_unlink[OF Cons.prems(1,2) n(1) i1(1,2,3) rl1] by blast
    define itr2 where "itr2 = itr1\<lparr>itr_current := NULL\<rparr>"
    have eq: "removeIf_loop m selector itr = removeIf_loop m1 selector itr2"
      using removeIf_loop_remove[OF h nx True] m1(1) by (simp add: itr2_def)
    have cc: "chain m1 (itr_next itr2) rest" using m1(3) i1(3) by (simp add: itr2_def)
    have d: "(if itr_current itr2 \<noteq> NULL then itr_current itr2 else itr_previous itr2) =
               fst (last kept)"
      using i1(2) by (simp add: itr2_def)
    have e: "read_list m1 (itr_list itr2) = Inr (l\<lparr>list_size := list_size l - 1\<rparr>)"
      using m1(4) by (simp add: itr2_def)
    from Cons.IH[OF m1(2) Cons.prems(2) cc d e] obtain m' itr' where r:
      "removeIf_loop m1 selector itr2 = Some (Inr (m', itr'))"
      "chain m' head
         (kept @ filter (\<lambda>c. \<not> func selector (snd c) (params selector)) rest)"
      "read_list m' (itr_list itr2) =
         Inr (l\<lparr>list_size := list_size l - 1,
              list_size := list_size (l\<lparr>list_size := list_size l - 1\<rparr>) -
            int (length (filter (\<lambda>c. func selector (snd c) (params selector)) rest))\<rparr>)"
      by blast
    have "itr_list itr2 = itr_list itr" using i1(4) by (simp add: itr2_def)
    then show ?thesis using r True eq by (simp add: algebra_simps)
  qed
qed

lemma l_removeIf_first_kept:
  assumes "valid_list m list cells"
    and "cells = [] \<or> \<not> func selector (snd (hd cells)) (params selector)"
  shows "\<exists>m' l'. l_removeIf m list selector = Some (Inr m') \<and>
           read_list m' list = Inr l' \<and>
           chain m' (list_head l')
             (filter (\<lambda>c. \<not> func selector (snd c) (params selector)) cells) \<and>
           list_size l' =
             int (length (filter (\<lambda>c. \<not> func selector (snd c) (params selector)) cells))"
proof -
  obtain itr where i: "l_iterator m list = Inr itr" "chain m (itr_next itr) cells"
      "itr_current itr = NULL" "itr_previous itr = NULL" "itr_list itr = list"
    using valid_list_iterator[OF assms(1)] by blast
  obtain l where l: "read_list m list = Inr l" "chain m (list_head l) cells"
      "list_size l = int (length cells)"
    using assms(1) by (auto simp: valid_list_def read_list_def split: option.splits)
  show ?thesis
  proof (cases cells)
    case Nil
    then have "removeIf_loop m selector itr = Some (Inr (m, itr))"
      using i(2) by (simp add: removeIf_loop_end chain_Nil_hasNext)
    then show ?thesis using Nil i(1) l by (simp add: l_removeIf_def)
  next
    case (Cons c rest)
    have keep: "\<not> func selector (snd c) (params selector)" using assms(2) Cons by simp
    obtain n where n: "nodes m (fst c) = Some n"
      "i_next m itr = Inr (snd c,
             itr\<lparr>itr_previous :=
                   (if itr_current itr \<noteq> NULL then itr_current itr else itr_previous itr),
                 itr_current := fst c, itr_next := node_next n,
                 itr_index := itr_index itr + 1\<rparr>)"
      using chain_Cons_next_node[of m itr c rest] i(2) Cons by blast
    define itr1 where "itr1 = itr\<lparr>itr_previous :=
                   (if itr_current itr \<noteq> NULL then itr_current itr else itr_previous itr),
                 itr_current := fst c, itr_next := node_next n,
                 itr_index := itr_index itr + 1\<rparr>"
    have nx: "i_next m itr = Inr (snd c, itr1)" using n(2) by (simp add: itr1_def)
    have h: "i_hasNext itr" using i(2) Cons chain_Cons_hasNext by blast
    have c0: "fst c \<noteq> NULL" "chain m (node_next n) rest"
      using i(2) Cons n(1) by (auto simp: chain_Cons_iff)
    have eq: "removeIf_loop m selector itr = removeIf_loop m selector itr1"
      using removeIf_loop_skip[OF h nx keep] .
    have a: "chain m (list_head l) ([c] @ rest)" using l(2) Cons by simp
    have cc: "chain m (itr_next itr1) rest" using c0(2) by (simp add: itr1_def)
    have d: "(if itr_current itr1 \<noteq> NULL then itr_current itr1 else itr_previous itr1) =
               fst (last [c])"
      using c0(1) by (simp add: itr1_def)
    have e: "read_list m (itr_list itr1) = Inr l" using l(1) i(5) by (simp add: itr1_def)
    from removeIf_loop_kept[OF a _ cc d e, of selector] obtain m' itr' where r:
      "removeIf_loop m selector itr1 = Some (Inr (m', itr'))"
      "chain m' (list_head l)
         ([c] @ filter (\<lambda>c. \<not> func selector (snd c) (params selector)) rest)"
      "read_list m' (itr_list itr1) =
         Inr (l\<lparr>list_size := list_size l -
            int (length (filter (\<lambda>c. func selector (snd c) (params selector)) rest))\<rparr>)"
      by blast
    have il: "itr_list itr1 = list" using i(5) by (simp add: itr1_def)
    have len: "int (length rest) -
        int (length (filter (\<lambda>c. func selector (snd c) (params selector)) rest)) =
        int (length (filter (\<lambda>c. \<not> func selector (snd c) (params selector)) rest))"
      using sum_length_filter_compl[of "\<lambda>c. func selector (snd c) (params selector)" rest]
      by simp
    have run: "l_removeIf m list selector = Some (Inr m')"
      using i(1) eq r(1) by (simp add: l_removeIf_def)
    show ?thesis
      using run r(2,3) il keep Cons l(3) len by simp
  qed
qed

end
